theory Spec2Isabelle
  imports Main "HOL-Library.Word"
begin

section \<open>The buffer cache of kernel/bio.c\<close>

text \<open>
  The cache is the global \<^verbatim>\<open>bcache[NBUCKETS]\<close>: each bucket has a spinlock and an array
  \<^verbatim>\<open>buf[NBUF]\<close> of \<^verbatim>\<open>struct buf\<close>. A \<^verbatim>\<open>struct buf *\<close> into that array is the pair of
  the bucket index and the index in the bucket's array. The macros \<^verbatim>\<open>NBUCKETS\<close> and
  \<^verbatim>\<open>NBUF\<close> come from a header that is not part of the sources at hand; every function
  that uses them takes them as parameters of the same name.
\<close>

subsection \<open>Data\<close>

type_synonym uint = "32 word"
type_synonym payload = "nat \<Rightarrow> 8 word"
type_synonym handle = "nat \<times> nat"

text \<open>
  Modelled from the spec: the two lock types (spinlock.h, sleeplock.h are missing). The
  shard lock is a non-suspending lock; the slot lock is an exclusive lock that tracks
  its owner. Both carry the name given at initialisation; storage that was never
  initialised has the null name, written as the empty string.
\<close>

record spinlock =
  sl_locked :: bool
  sl_name :: string

record sleeplock =
  locked :: bool
  pid :: nat
  name :: string

text \<open>
  Modelled from the spec: \<^verbatim>\<open>struct buf\<close> (buf.h is missing), with the fields that bio.c
  reads and writes. \<^verbatim>\<open>valid\<close> only ever holds 0 or 1 and is tested for zero: a boolean.
  \<^verbatim>\<open>refcnt\<close> and \<^verbatim>\<open>tstamp\<close> are unsigned 32-bit, as are \<^verbatim>\<open>dev\<close> and \<^verbatim>\<open>blockno\<close>
  (the parameters of \<^verbatim>\<open>bget\<close> are \<^verbatim>\<open>uint\<close>).
\<close>

record buf =
  valid :: bool
  dev :: uint
  blockno :: uint
  lock :: sleeplock
  refcnt :: uint
  tstamp :: uint
  data :: payload

text \<open>
  What the lock primitives and the disk driver do is recorded, in order, in a trace, so
  that the order of lock operations inside one call can be stated.
\<close>

datatype event =
    EvAcquire nat
  | EvRelease nat
  | EvAcquireSleep handle nat
  | EvReleaseSleep handle
  | EvDiskRW handle bool

text \<open>
  The state: the global \<^verbatim>\<open>bcache\<close> (lock and slots of every bucket), the global clock
  \<^verbatim>\<open>ticks\<close>, the content of the disk by (device, block number), and the trace.
\<close>

record kstate =
  bcache_lock :: "nat \<Rightarrow> spinlock"
  bcache_buf :: "nat \<Rightarrow> nat \<Rightarrow> buf"
  ticks :: uint
  disk :: "uint \<times> uint \<Rightarrow> payload"
  trace :: "event list"

text \<open>
  A call returns a value, panics (the kernel halts), or waits for a lock that is held:
  the last two carry the state at that point.
\<close>

datatype lockref = ShardLock nat | SlotLock handle

datatype 'a outcome =
    Returns kstate 'a
  | Panics kstate string
  | Waits kstate lockref

definition buf_at :: "kstate \<Rightarrow> handle \<Rightarrow> buf" where
  "buf_at s b = bcache_buf s (fst b) (snd b)"

definition upd_buf :: "handle \<Rightarrow> (buf \<Rightarrow> buf) \<Rightarrow> kstate \<Rightarrow> kstate" where
  "upd_buf b f s =
     s\<lparr>bcache_buf := (bcache_buf s)(fst b := (bcache_buf s (fst b))(snd b := f (buf_at s b)))\<rparr>"

subsection \<open>The collaborators: locks and the disk driver\<close>

text \<open>
  Modelled from the spec: \<^verbatim>\<open>initlock\<close>, \<^verbatim>\<open>acquire\<close>, \<^verbatim>\<open>release\<close> of the shard lock
  (spinlock.c is missing). \<^verbatim>\<open>acquire\<close> takes a free lock; on a held lock the caller
  spins, which is \<open>None\<close> here.
\<close>

definition initlock :: "spinlock \<Rightarrow> string \<Rightarrow> spinlock" where
  "initlock lk nm = lk\<lparr>sl_locked := False, sl_name := nm\<rparr>"

definition acquire :: "nat \<Rightarrow> kstate \<Rightarrow> kstate option" where
  "acquire i s =
     (if sl_locked (bcache_lock s i) then None
      else Some (s\<lparr>bcache_lock := (bcache_lock s)(i := (bcache_lock s i)\<lparr>sl_locked := True\<rparr>),
                   trace := trace s @ [EvAcquire i]\<rparr>))"

definition release :: "nat \<Rightarrow> kstate \<Rightarrow> kstate" where
  "release i s =
     s\<lparr>bcache_lock := (bcache_lock s)(i := (bcache_lock s i)\<lparr>sl_locked := False\<rparr>),
       trace := trace s @ [EvRelease i]\<rparr>"

text \<open>
  Modelled from the spec: the slot's exclusive lock (sleeplock.c is missing). It records
  its owner; \<^verbatim>\<open>acquiresleep\<close> on a held lock suspends the caller (\<open>None\<close> here);
  \<^verbatim>\<open>holdingsleep\<close> says whether the calling thread, \<open>p\<close>, holds it.
\<close>

definition initsleeplock :: "sleeplock \<Rightarrow> string \<Rightarrow> sleeplock" where
  "initsleeplock lk nm = lk\<lparr>locked := False, pid := 0, name := nm\<rparr>"

definition acquiresleep :: "nat \<Rightarrow> handle \<Rightarrow> kstate \<Rightarrow> kstate option" where
  "acquiresleep p b s =
     (if locked (lock (buf_at s b)) then None
      else Some ((upd_buf b (\<lambda>x. x\<lparr>lock := (lock x)\<lparr>locked := True, pid := p\<rparr>\<rparr>) s)
                   \<lparr>trace := trace s @ [EvAcquireSleep b p]\<rparr>))"

definition releasesleep :: "handle \<Rightarrow> kstate \<Rightarrow> kstate" where
  "releasesleep b s =
     (upd_buf b (\<lambda>x. x\<lparr>lock := (lock x)\<lparr>locked := False, pid := 0\<rparr>\<rparr>) s)
       \<lparr>trace := trace s @ [EvReleaseSleep b]\<rparr>"

definition holdingsleep :: "nat \<Rightarrow> handle \<Rightarrow> kstate \<Rightarrow> bool" where
  "holdingsleep p b s = (locked (lock (buf_at s b)) \<and> pid (lock (buf_at s b)) = p)"

text \<open>
  Modelled from the spec: the block-device driver (virtio_disk.c is missing). It moves
  the payload between the slot and the block addressed by the slot's device and block
  number; \<open>w\<close> is the direction (true: write to disk).
\<close>

definition virtio_disk_rw :: "handle \<Rightarrow> bool \<Rightarrow> kstate \<Rightarrow> kstate" where
  "virtio_disk_rw b w s =
     (let x = buf_at s b; k = (dev x, blockno x) in
      if w then s\<lparr>disk := (disk s)(k := data x), trace := trace s @ [EvDiskRW b True]\<rparr>
      else (upd_buf b (\<lambda>y. y\<lparr>data := disk s k\<rparr>) s)\<lparr>trace := trace s @ [EvDiskRW b False]\<rparr>)"

subsection \<open>binit\<close>

text \<open>
  \<^verbatim>\<open>bcache\<close> has static storage: before \<^verbatim>\<open>binit\<close> every byte of it is zero.
\<close>

definition zero_buf :: buf where
  "zero_buf = \<lparr>valid = False, dev = 0, blockno = 0,
               lock = \<lparr>locked = False, pid = 0, name = []\<rparr>,
               refcnt = 0, tstamp = 0, data = (\<lambda>_. 0)\<rparr>"

definition bcache_zero :: "(uint \<times> uint \<Rightarrow> payload) \<Rightarrow> kstate" where
  "bcache_zero d =
     \<lparr>bcache_lock = (\<lambda>_. \<lparr>sl_locked = False, sl_name = []\<rparr>),
      bcache_buf = (\<lambda>_ _. zero_buf),
      ticks = 0, disk = d, trace = []\<rparr>"

text \<open>The inner loop of \<^verbatim>\<open>binit\<close> over the first \<open>n\<close> slots of bucket \<open>i\<close>.\<close>

primrec binit_bufs :: "nat \<Rightarrow> nat \<Rightarrow> kstate \<Rightarrow> kstate" where
  "binit_bufs i 0 s = s"
| "binit_bufs i (Suc n) s =
     upd_buf (i, n) (\<lambda>x. x\<lparr>lock := initsleeplock (lock x) ''buffer''\<rparr>) (binit_bufs i n s)"

text \<open>The outer loop over the first \<open>n\<close> buckets.\<close>

primrec binit_buckets :: "nat \<Rightarrow> nat \<Rightarrow> kstate \<Rightarrow> kstate" where
  "binit_buckets NBUF 0 s = s"
| "binit_buckets NBUF (Suc n) s =
     (let s1 = binit_buckets NBUF n s;
          s2 = s1\<lparr>bcache_lock := (bcache_lock s1)(n := initlock (bcache_lock s1 n) ''bcache'')\<rparr>
      in binit_bufs n NBUF s2)"

definition binit :: "nat \<Rightarrow> nat \<Rightarrow> kstate \<Rightarrow> kstate" where
  "binit NBUCKETS NBUF s = binit_buckets NBUF NBUCKETS s"

subsection \<open>bget\<close>

text \<open>
  The scan of \<^verbatim>\<open>bget\<close> over the slots \<open>j, j + 1, ...\<close> of one bucket, \<open>bs\<close>. The pointer
  \<^verbatim>\<open>lru\<close> is an index, or \<open>None\<close> for the null pointer. The loop of the source runs
  while \<^verbatim>\<open>b != buf + NBUF\<close>, starting at \<^verbatim>\<open>buf\<close>: while \<open>j < NBUF\<close>. On a match the
  source returns from inside the loop: \<open>Hit j\<close>; what it does on that path is in
  \<open>bget\<close> below.
\<close>

datatype scan_result = Hit nat | Miss "nat option"

function bget_scan ::
  "(nat \<Rightarrow> buf) \<Rightarrow> uint \<Rightarrow> uint \<Rightarrow> nat \<Rightarrow> nat \<Rightarrow> nat option \<Rightarrow> scan_result" where
  "bget_scan bs dv bno NBUF j lru =
     (if j < NBUF then
        (if dev (bs j) = dv \<and> blockno (bs j) = bno then Hit j
         else if refcnt (bs j) = 0 \<and>
                 (case lru of None \<Rightarrow> True | Some l \<Rightarrow> tstamp (bs l) > tstamp (bs j))
              then bget_scan bs dv bno NBUF (j + 1) (Some j)
              else bget_scan bs dv bno NBUF (j + 1) lru)
      else Miss lru)"
  by pat_completeness auto
termination
  by (relation "measure (\<lambda>(bs, dv, bno, NBUF, j, lru). NBUF - j)") auto

declare bget_scan.simps [simp del]

text \<open>The end of both returning paths: take the slot's lock, or wait for it.\<close>

definition lock_and_return :: "nat \<Rightarrow> handle \<Rightarrow> kstate \<Rightarrow> handle outcome" where
  "lock_and_return p b s =
     (case acquiresleep p b s of
        None \<Rightarrow> Waits s (SlotLock b)
      | Some s' \<Rightarrow> Returns s' b)"

definition bget :: "nat \<Rightarrow> nat \<Rightarrow> nat \<Rightarrow> uint \<Rightarrow> uint \<Rightarrow> kstate \<Rightarrow> handle outcome" where
  "bget NBUCKETS NBUF p dv bno s =
     (let id = unat bno mod NBUCKETS in
      case acquire id s of
        None \<Rightarrow> Waits s (ShardLock id)
      | Some s1 \<Rightarrow>
          (case bget_scan (bcache_buf s1 id) dv bno NBUF 0 None of
             Hit j \<Rightarrow>
               lock_and_return p (id, j)
                 (release id (upd_buf (id, j) (\<lambda>x. x\<lparr>refcnt := refcnt x + 1\<rparr>) s1))
           | Miss (Some l) \<Rightarrow>
               lock_and_return p (id, l)
                 (release id
                   (upd_buf (id, l)
                      (\<lambda>x. x\<lparr>dev := dv, blockno := bno, valid := False,
                              refcnt := 1, tstamp := ticks s1\<rparr>) s1))
           | Miss None \<Rightarrow> Panics (release id s1) ''bget: no buffers''))"

subsection \<open>bread, bwrite, brelse, bpin, bunpin\<close>

definition bread :: "nat \<Rightarrow> nat \<Rightarrow> nat \<Rightarrow> uint \<Rightarrow> uint \<Rightarrow> kstate \<Rightarrow> handle outcome" where
  "bread NBUCKETS NBUF p dv bno s =
     (case bget NBUCKETS NBUF p dv bno s of
        Returns s1 b \<Rightarrow>
          (if \<not> valid (buf_at s1 b)
           then Returns (upd_buf b (\<lambda>x. x\<lparr>valid := True\<rparr>) (virtio_disk_rw b False s1)) b
           else Returns s1 b)
      | Panics s1 m \<Rightarrow> Panics s1 m
      | Waits s1 l \<Rightarrow> Waits s1 l)"

definition bwrite :: "nat \<Rightarrow> handle \<Rightarrow> kstate \<Rightarrow> unit outcome" where
  "bwrite p b s =
     (if \<not> holdingsleep p b s then Panics s ''bwrite''
      else Returns (virtio_disk_rw b True s) ())"

definition brelse :: "nat \<Rightarrow> nat \<Rightarrow> handle \<Rightarrow> kstate \<Rightarrow> unit outcome" where
  "brelse NBUCKETS p b s =
     (if \<not> holdingsleep p b s then Panics s ''brelse''
      else
        (let s1 = releasesleep b s;
             id = unat (blockno (buf_at s1 b)) mod NBUCKETS
         in case acquire id s1 of
              None \<Rightarrow> Waits s1 (ShardLock id)
            | Some s2 \<Rightarrow>
                Returns (release id
                  (upd_buf b (\<lambda>x. x\<lparr>tstamp := ticks s2\<rparr>)
                    (upd_buf b (\<lambda>x. x\<lparr>refcnt := refcnt x - 1\<rparr>) s2))) ()))"

definition bpin :: "nat \<Rightarrow> handle \<Rightarrow> kstate \<Rightarrow> unit outcome" where
  "bpin NBUCKETS b s =
     (let id = unat (blockno (buf_at s b)) mod NBUCKETS
      in case acquire id s of
           None \<Rightarrow> Waits s (ShardLock id)
         | Some s1 \<Rightarrow>
             Returns (release id (upd_buf b (\<lambda>x. x\<lparr>refcnt := refcnt x + 1\<rparr>) s1)) ())"

definition bunpin :: "nat \<Rightarrow> handle \<Rightarrow> kstate \<Rightarrow> unit outcome" where
  "bunpin NBUCKETS b s =
     (let id = unat (blockno (buf_at s b)) mod NBUCKETS
      in case acquire id s of
           None \<Rightarrow> Waits s (ShardLock id)
         | Some s1 \<Rightarrow>
             Returns (release id (upd_buf b (\<lambda>x. x\<lparr>refcnt := refcnt x - 1\<rparr>) s1)) ())"

section \<open>Definitions used in the statements and proofs\<close>

subsection \<open>The scan\<close>

text \<open>
  The two tests of the loop body of \<^verbatim>\<open>bget\<close>, and the invariant of the loop: after the
  slots below \<open>j\<close>, \<^verbatim>\<open>lru\<close> is null when all of them are referenced, and otherwise
  points to the first of the unreferenced ones with the least time stamp.
\<close>

definition matches :: "buf \<Rightarrow> uint \<Rightarrow> uint \<Rightarrow> bool" where
  "matches x dv bno = (dev x = dv \<and> blockno x = bno)"

definition takes :: "(nat \<Rightarrow> buf) \<Rightarrow> nat \<Rightarrow> nat option \<Rightarrow> bool" where
  "takes bs j lru =
     (refcnt (bs j) = 0 \<and> (case lru of None \<Rightarrow> True | Some l \<Rightarrow> tstamp (bs l) > tstamp (bs j)))"

definition lru_inv :: "(nat \<Rightarrow> buf) \<Rightarrow> nat \<Rightarrow> nat option \<Rightarrow> bool" where
  "lru_inv bs j lru =
     (case lru of
        None \<Rightarrow> (\<forall>k<j. refcnt (bs k) \<noteq> 0)
      | Some l \<Rightarrow> l < j \<and> refcnt (bs l) = 0 \<and>
          (\<forall>k<j. refcnt (bs k) = 0 \<longrightarrow> tstamp (bs l) \<le> tstamp (bs k)) \<and>
          (\<forall>k<l. refcnt (bs k) = 0 \<longrightarrow> tstamp (bs l) < tstamp (bs k)))"

subsection \<open>The states that the calls produce\<close>

text \<open>A critical section under the shard lock, when the lock is free at entry.\<close>

definition acquired :: "nat \<Rightarrow> kstate \<Rightarrow> kstate" where
  "acquired i s =
     s\<lparr>bcache_lock := (bcache_lock s)(i := (bcache_lock s i)\<lparr>sl_locked := True\<rparr>),
       trace := trace s @ [EvAcquire i]\<rparr>"

definition shard_trace :: "nat \<Rightarrow> kstate \<Rightarrow> event list" where
  "shard_trace i s = trace s @ [EvAcquire i, EvRelease i]"

text \<open>
  The state when \<^verbatim>\<open>bget\<close> has released the shard lock: after recycling slot \<open>l\<close> of
  bucket \<open>i\<close>, and after a hit on slot \<open>j\<close>; then the state when thread \<open>p\<close> has taken
  the lock of slot \<open>b\<close>.
\<close>

definition evicted :: "nat \<Rightarrow> nat \<Rightarrow> uint \<Rightarrow> uint \<Rightarrow> kstate \<Rightarrow> kstate" where
  "evicted i l dv bno s =
     (upd_buf (i, l) (\<lambda>x. x\<lparr>dev := dv, blockno := bno, valid := False,
                             refcnt := 1, tstamp := ticks s\<rparr>) s)\<lparr>trace := shard_trace i s\<rparr>"

definition referenced :: "nat \<Rightarrow> nat \<Rightarrow> kstate \<Rightarrow> kstate" where
  "referenced i j s =
     (upd_buf (i, j) (\<lambda>x. x\<lparr>refcnt := refcnt x + 1\<rparr>) s)\<lparr>trace := shard_trace i s\<rparr>"

definition slept :: "nat \<Rightarrow> handle \<Rightarrow> kstate \<Rightarrow> kstate" where
  "slept p b s =
     (upd_buf b (\<lambda>x. x\<lparr>lock := (lock x)\<lparr>locked := True, pid := p\<rparr>\<rparr>) s)
       \<lparr>trace := trace s @ [EvAcquireSleep b p]\<rparr>"

text \<open>
  The slot that the specification asks \<^verbatim>\<open>bget\<close> to recycle: an unreferenced slot whose
  time stamp is the least among the unreferenced slots of the bucket, and the first such
  in scan order.
\<close>

definition lru_victim :: "(nat \<Rightarrow> buf) \<Rightarrow> nat \<Rightarrow> nat \<Rightarrow> bool" where
  "lru_victim bs NBUF l =
     (l < NBUF \<and> refcnt (bs l) = 0 \<and>
      (\<forall>k<NBUF. refcnt (bs k) = 0 \<longrightarrow> tstamp (bs l) \<le> tstamp (bs k)) \<and>
      (\<forall>k<l. refcnt (bs k) = 0 \<longrightarrow> tstamp (bs l) < tstamp (bs k)))"

subsection \<open>An example state\<close>

text \<open>
  Two buckets of three slots. In bucket 0, slot 0 holds block 2 of device 1, referenced
  once, with time stamp 0; slots 1 and 2 hold blocks 4 and 6, unreferenced, with time
  stamps 7 and 5. No lock is held and the clock is at 9.
\<close>

definition ex_buf :: "uint \<Rightarrow> uint \<Rightarrow> uint \<Rightarrow> uint \<Rightarrow> buf" where
  "ex_buf d b r t =
     \<lparr>valid = True, dev = d, blockno = b,
      lock = \<lparr>locked = False, pid = 0, name = ''buffer''\<rparr>,
      refcnt = r, tstamp = t, data = (\<lambda>_. 0)\<rparr>"

definition ex_state :: kstate where
  "ex_state =
     \<lparr>bcache_lock = (\<lambda>_. \<lparr>sl_locked = False, sl_name = ''bcache''\<rparr>),
      bcache_buf = (\<lambda>i j. if i = 0 then
                             (if j = 0 then ex_buf 1 2 1 0
                              else if j = 1 then ex_buf 1 4 0 7
                              else ex_buf 1 6 0 5)
                           else zero_buf),
      ticks = 9, disk = (\<lambda>_ _. 0), trace = []\<rparr>"



subsection \<open>More states that the calls produce\<close>

text \<open>
  The state when \<^verbatim>\<open>bread\<close> has read slot \<open>b\<close> from the disk, and the state when
  \<^verbatim>\<open>brelse\<close> has released slot \<open>b\<close> under the lock of bucket \<open>i\<close>.
\<close>

definition filled :: "handle \<Rightarrow> kstate \<Rightarrow> kstate" where
  "filled b s = upd_buf b (\<lambda>x. x\<lparr>valid := True\<rparr>) (virtio_disk_rw b False s)"

definition released :: "nat \<Rightarrow> handle \<Rightarrow> kstate \<Rightarrow> kstate" where
  "released i b s =
     (upd_buf b (\<lambda>x. x\<lparr>lock := (lock x)\<lparr>locked := False, pid := 0\<rparr>,
                         refcnt := refcnt x - 1, tstamp := ticks s\<rparr>) s)
       \<lparr>trace := trace s @ [EvReleaseSleep b, EvAcquire i, EvRelease i]\<rparr>"

subsection \<open>Sequences of calls\<close>

text \<open>
  A slot is at home when it lies in the bucket that its block number hashes to: the
  bucket whose lock \<^verbatim>\<open>brelse\<close>, \<^verbatim>\<open>bpin\<close> and \<^verbatim>\<open>bunpin\<close> take.
\<close>

definition home :: "nat \<Rightarrow> kstate \<Rightarrow> handle \<Rightarrow> bool" where
  "home NBUCKETS s b = (unat (blockno (buf_at s b)) mod NBUCKETS = fst b)"

text \<open>
  A thread that \<^verbatim>\<open>bget\<close> left waiting for the lock of slot \<open>b\<close> goes on, once the lock is
  free, with the rest of \<^verbatim>\<open>bget\<close> and of \<^verbatim>\<open>bread\<close>.
\<close>

definition bread_resume :: "nat \<Rightarrow> handle \<Rightarrow> kstate \<Rightarrow> handle outcome" where
  "bread_resume p b s =
     (case lock_and_return p b s of
        Returns s1 b' \<Rightarrow>
          (if \<not> valid (buf_at s1 b')
           then Returns (upd_buf b' (\<lambda>x. x\<lparr>valid := True\<rparr>) (virtio_disk_rw b' False s1)) b'
           else Returns s1 b')
      | Panics s1 m \<Rightarrow> Panics s1 m
      | Waits s1 l \<Rightarrow> Waits s1 l)"

text \<open>
  The calls that the rest of the kernel makes, by the thread that makes them, and the
  clock interrupt. A call runs until it returns, panics or waits for a lock, and the
  calls run one after the other. After a panic the kernel has halted: there is no next
  state. \<^verbatim>\<open>bget\<close> is static: it runs as part of \<^verbatim>\<open>bread\<close> only.
\<close>

datatype op =
    Bread nat uint uint
  | Bwrite nat handle
  | Brelse nat handle
  | Bpin handle
  | Bunpin handle
  | Wake nat handle
  | Tick

fun after :: "'a outcome \<Rightarrow> kstate option" where
  "after (Returns s v) = Some s"
| "after (Waits s l) = Some s"
| "after (Panics s m) = None"

fun step :: "nat \<Rightarrow> nat \<Rightarrow> op \<Rightarrow> kstate \<Rightarrow> kstate option" where
  "step NBUCKETS NBUF (Bread p dv bno) s = after (bread NBUCKETS NBUF p dv bno s)"
| "step NBUCKETS NBUF (Bwrite p b) s = after (bwrite p b s)"
| "step NBUCKETS NBUF (Brelse p b) s = after (brelse NBUCKETS p b s)"
| "step NBUCKETS NBUF (Bpin b) s = after (bpin NBUCKETS b s)"
| "step NBUCKETS NBUF (Bunpin b) s = after (bunpin NBUCKETS b s)"
| "step NBUCKETS NBUF (Wake p b) s = after (bread_resume p b s)"
| "step NBUCKETS NBUF Tick s = Some (s\<lparr>ticks := ticks s + 1\<rparr>)"

text \<open>
  Only a thread that waits for a slot's lock can be woken. It waits for a slot that
  \<^verbatim>\<open>bget\<close> chose for it, and such a slot is at home; every thread, and every slot that is
  at home, is allowed here, which is more than can happen.
\<close>

fun enabled :: "nat \<Rightarrow> op \<Rightarrow> kstate \<Rightarrow> bool" where
  "enabled NBUCKETS (Wake p b) s = home NBUCKETS s b"
| "enabled NBUCKETS x s = True"

text \<open>
  The states that calls lead to from a state \<open>s\<close>, and the reachable states: those that
  calls lead to from the state after \<^verbatim>\<open>binit\<close>, whatever the disk holds.
\<close>

inductive reaches :: "nat \<Rightarrow> nat \<Rightarrow> kstate \<Rightarrow> kstate \<Rightarrow> bool"
  for NBUCKETS NBUF s where
  start: "reaches NBUCKETS NBUF s s"
| onward: "reaches NBUCKETS NBUF s s1 \<Longrightarrow> enabled NBUCKETS x s1 \<Longrightarrow>
         step NBUCKETS NBUF x s1 = Some s2 \<Longrightarrow> reaches NBUCKETS NBUF s s2"

definition reachable :: "nat \<Rightarrow> nat \<Rightarrow> kstate \<Rightarrow> bool" where
  "reachable NBUCKETS NBUF s =
     (0 < NBUCKETS \<and> (\<exists>d. reaches NBUCKETS NBUF (binit NBUCKETS NBUF (bcache_zero d)) s))"

text \<open>
  What one call does to the slots. It writes to one slot at most, \<open>b\<close>. Either it keeps
  the slot's device and block number, and takes the slot's lock only if the slot is at
  home; or it recycles the slot, in range and at home afterwards, for an identity that
  no slot of the bucket carried.
\<close>

definition keeps :: "nat \<Rightarrow> kstate \<Rightarrow> kstate \<Rightarrow> handle \<Rightarrow> bool" where
  "keeps NBUCKETS s s' b =
     (dev (buf_at s' b) = dev (buf_at s b) \<and> blockno (buf_at s' b) = blockno (buf_at s b) \<and>
      (locked (lock (buf_at s' b)) \<longrightarrow> locked (lock (buf_at s b)) \<or> home NBUCKETS s b))"

definition recycles :: "nat \<Rightarrow> nat \<Rightarrow> kstate \<Rightarrow> kstate \<Rightarrow> handle \<Rightarrow> bool" where
  "recycles NBUCKETS NBUF s s' b =
     (snd b < NBUF \<and> home NBUCKETS s' b \<and>
      (\<forall>j<NBUF. \<not> matches (bcache_buf s (fst b) j) (dev (buf_at s' b)) (blockno (buf_at s' b))))"

definition changes :: "nat \<Rightarrow> nat \<Rightarrow> kstate \<Rightarrow> kstate \<Rightarrow> bool" where
  "changes NBUCKETS NBUF s s' =
     (bcache_lock s' = bcache_lock s \<and>
      (\<exists>b. (\<forall>c. c \<noteq> b \<longrightarrow> buf_at s' c = buf_at s c) \<and>
           (keeps NBUCKETS s s' b \<or> recycles NBUCKETS NBUF s s' b)))"

text \<open>
  The invariant of the reachable states: between calls no shard lock is held; a slot
  whose lock is held is at home; a slot with an identity other than (0, 0) is at home and
  in range; within a bucket no two slots carry the same identity other than (0, 0).
\<close>

definition locks_free :: "kstate \<Rightarrow> bool" where
  "locks_free s = (\<forall>i. \<not> sl_locked (bcache_lock s i))"

definition ident :: "kstate \<Rightarrow> handle \<Rightarrow> uint \<times> uint" where
  "ident s b = (dev (buf_at s b), blockno (buf_at s b))"

definition locked_home :: "nat \<Rightarrow> kstate \<Rightarrow> bool" where
  "locked_home NBUCKETS s = (\<forall>c. locked (lock (buf_at s c)) \<longrightarrow> home NBUCKETS s c)"

definition assigned_home :: "nat \<Rightarrow> nat \<Rightarrow> kstate \<Rightarrow> bool" where
  "assigned_home NBUCKETS NBUF s =
     (\<forall>c. ident s c \<noteq> (0, 0) \<longrightarrow> home NBUCKETS s c \<and> snd c < NBUF)"

definition bucket_unique :: "nat \<Rightarrow> kstate \<Rightarrow> bool" where
  "bucket_unique NBUF s =
     (\<forall>i j j'. j < NBUF \<and> j' < NBUF \<and> ident s (i, j) = ident s (i, j') \<and>
               ident s (i, j) \<noteq> (0, 0) \<longrightarrow> j = j')"

definition cache_inv :: "nat \<Rightarrow> nat \<Rightarrow> kstate \<Rightarrow> bool" where
  "cache_inv NBUCKETS NBUF s =
     (locks_free s \<and> locked_home NBUCKETS s \<and> assigned_home NBUCKETS NBUF s \<and>
      bucket_unique NBUF s)"

subsection \<open>A reachable example\<close>

text \<open>
  One bucket of two slots and an empty disk: the state after \<^verbatim>\<open>binit\<close>, and the state
  after thread 5 has then read block 3 of device 1.
\<close>

definition zero_disk :: "uint \<times> uint \<Rightarrow> payload" where
  "zero_disk = (\<lambda>_ _. 0)"

definition boot_state :: kstate where
  "boot_state = binit 1 2 (bcache_zero zero_disk)"

definition read_state :: kstate where
  "read_state = filled (0, 0) (slept 5 (0, 0) (evicted 0 0 1 3 boot_state))"

section \<open>Properties\<close>

subsection \<open>The scan\<close>

lemma buf_at_upd_buf: "buf_at (upd_buf b f s) c = (if c = b then f (buf_at s b) else buf_at s c)"
  by (cases b, cases c) (auto simp: buf_at_def upd_buf_def)

lemma bget_scan_end: "\<not> j < NBUF \<Longrightarrow> bget_scan bs dv bno NBUF j lru = Miss lru"
  by (subst bget_scan.simps) simp

lemma bget_scan_hit:
  "j < NBUF \<Longrightarrow> matches (bs j) dv bno \<Longrightarrow> bget_scan bs dv bno NBUF j lru = Hit j"
  by (subst bget_scan.simps) (simp add: matches_def)

lemma bget_scan_take:
  "j < NBUF \<Longrightarrow> \<not> matches (bs j) dv bno \<Longrightarrow> takes bs j lru \<Longrightarrow>
     bget_scan bs dv bno NBUF j lru = bget_scan bs dv bno NBUF (Suc j) (Some j)"
  by (subst bget_scan.simps) (auto simp: matches_def takes_def)

lemma bget_scan_keep:
  "j < NBUF \<Longrightarrow> \<not> matches (bs j) dv bno \<Longrightarrow> \<not> takes bs j lru \<Longrightarrow>
     bget_scan bs dv bno NBUF j lru = bget_scan bs dv bno NBUF (Suc j) lru"
  by (subst bget_scan.simps) (auto simp: matches_def takes_def)

lemma bget_scan_induct [consumes 0, case_names stop hit take keep]:
  assumes "\<And>j lru. \<not> j < NBUF \<Longrightarrow> P j lru"
    and "\<And>j lru. j < NBUF \<Longrightarrow> matches (bs j) dv bno \<Longrightarrow> P j lru"
    and "\<And>j lru. j < NBUF \<Longrightarrow> \<not> matches (bs j) dv bno \<Longrightarrow> takes bs j lru \<Longrightarrow>
           P (Suc j) (Some j) \<Longrightarrow> P j lru"
    and "\<And>j lru. j < NBUF \<Longrightarrow> \<not> matches (bs j) dv bno \<Longrightarrow> \<not> takes bs j lru \<Longrightarrow>
           P (Suc j) lru \<Longrightarrow> P j lru"
  shows "P j lru"
proof (induction "NBUF - j" arbitrary: j lru)
  case (0 j lru)
  then show ?case using assms(1) by simp
next
  case (Suc n j lru)
  then have lt: "j < NBUF" and n: "n = NBUF - Suc j" by simp_all
  show ?case
  proof (cases "matches (bs j) dv bno")
    case True
    with lt show ?thesis by (rule assms(2))
  next
    case nm: False
    show ?thesis
    proof (cases "takes bs j lru")
      case True
      have "P (Suc j) (Some j)" by (rule Suc.hyps(1) [OF n])
      with lt nm True show ?thesis by (rule assms(3))
    next
      case False
      have "P (Suc j) lru" by (rule Suc.hyps(1) [OF n])
      with lt nm False show ?thesis by (rule assms(4))
    qed
  qed
qed

lemma lru_inv_step_take:
  assumes "lru_inv bs j lru" "takes bs j lru"
  shows "lru_inv bs (Suc j) (Some j)"
  using assms
  by (cases lru) (auto simp: lru_inv_def takes_def less_Suc_eq)

lemma lru_inv_step_keep:
  assumes "lru_inv bs j lru" "\<not> takes bs j lru"
  shows "lru_inv bs (Suc j) lru"
  using assms
  by (cases lru) (auto simp: lru_inv_def takes_def less_Suc_eq)

lemma bget_scan_miss:
  "(\<forall>k. j \<le> k \<and> k < NBUF \<longrightarrow> \<not> matches (bs k) dv bno) \<Longrightarrow> j \<le> NBUF \<Longrightarrow> lru_inv bs j lru \<Longrightarrow>
    \<exists>lru'. bget_scan bs dv bno NBUF j lru = Miss lru' \<and> lru_inv bs NBUF lru'"
proof (induction j lru rule: bget_scan_induct [where NBUF = NBUF and bs = bs and dv = dv and bno = bno])
  case (stop j lru)
  then show ?case by (simp add: bget_scan_end)
next
  case (hit j lru)
  then show ?case by auto
next
  case (take j lru)
  from take.prems take.hyps have "lru_inv bs (Suc j) (Some j)"
    by (simp add: lru_inv_step_take)
  with take show ?case by (simp add: bget_scan_take)
next
  case (keep j lru)
  from keep.prems keep.hyps have "lru_inv bs (Suc j) lru"
    using lru_inv_step_keep by blast
  with keep show ?case by (simp add: bget_scan_keep)
qed

lemma bget_scan_Hit:
  "bget_scan bs dv bno NBUF j lru = Hit h \<Longrightarrow>
     j \<le> h \<and> h < NBUF \<and> matches (bs h) dv bno \<and>
     (\<forall>k. j \<le> k \<and> k < h \<longrightarrow> \<not> matches (bs k) dv bno)"
proof (induction j lru rule: bget_scan_induct [where NBUF = NBUF and bs = bs and dv = dv and bno = bno])
  case (stop j lru)
  then show ?case by (simp add: bget_scan_end)
next
  case (hit j lru)
  then have "h = j" by (simp add: bget_scan_hit)
  with hit.hyps show ?case by auto
next
  case (take j lru)
  then have ih: "Suc j \<le> h \<and> h < NBUF \<and> matches (bs h) dv bno \<and>
     (\<forall>k. Suc j \<le> k \<and> k < h \<longrightarrow> \<not> matches (bs k) dv bno)"
    by (simp add: bget_scan_take)
  with \<open>\<not> matches (bs j) dv bno\<close> have "\<forall>k. j \<le> k \<and> k < h \<longrightarrow> \<not> matches (bs k) dv bno"
    by (metis Suc_leI le_neq_implies_less)
  with ih show ?case by simp
next
  case (keep j lru)
  then have ih: "Suc j \<le> h \<and> h < NBUF \<and> matches (bs h) dv bno \<and>
     (\<forall>k. Suc j \<le> k \<and> k < h \<longrightarrow> \<not> matches (bs k) dv bno)"
    by (simp add: bget_scan_keep)
  with \<open>\<not> matches (bs j) dv bno\<close> have "\<forall>k. j \<le> k \<and> k < h \<longrightarrow> \<not> matches (bs k) dv bno"
    by (metis Suc_leI le_neq_implies_less)
  with ih show ?case by simp
qed

lemma bget_scan_Miss_nomatch:
  "bget_scan bs dv bno NBUF j lru = Miss r \<Longrightarrow>
     (\<forall>k. j \<le> k \<and> k < NBUF \<longrightarrow> \<not> matches (bs k) dv bno)"
proof (induction j lru rule: bget_scan_induct [where NBUF = NBUF and bs = bs and dv = dv and bno = bno])
  case (stop j lru)
  then show ?case by auto
next
  case (hit j lru)
  then show ?case by (simp add: bget_scan_hit)
next
  case (take j lru)
  then have "\<forall>k. Suc j \<le> k \<and> k < NBUF \<longrightarrow> \<not> matches (bs k) dv bno"
    by (simp add: bget_scan_take)
  with \<open>\<not> matches (bs j) dv bno\<close> show ?case
    by (metis Suc_leI le_neq_implies_less)
next
  case (keep j lru)
  then have "\<forall>k. Suc j \<le> k \<and> k < NBUF \<longrightarrow> \<not> matches (bs k) dv bno"
    by (simp add: bget_scan_keep)
  with \<open>\<not> matches (bs j) dv bno\<close> show ?case
    by (metis Suc_leI le_neq_implies_less)
qed

subsection \<open>The critical section of bget\<close>

lemma buf_at_pair [simp]: "buf_at s (i, j) = bcache_buf s i j"
  by (simp add: buf_at_def)

lemma upd_buf_fields [simp]:
  "bcache_lock (upd_buf b f s) = bcache_lock s"
  "ticks (upd_buf b f s) = ticks s"
  "disk (upd_buf b f s) = disk s"
  "trace (upd_buf b f s) = trace s"
  by (simp_all add: upd_buf_def)

lemma bcache_buf_upd_buf [simp]:
  "bcache_buf (upd_buf (i, j) f s) i' j' =
     (if i' = i \<and> j' = j then f (bcache_buf s i j) else bcache_buf s i' j')"
  by (simp add: upd_buf_def)

lemma lock_restore:
  "\<not> sl_locked (bcache_lock s i) \<Longrightarrow>
     (bcache_lock s)(i := bcache_lock s i\<lparr>sl_locked := False\<rparr>) = bcache_lock s"
  by (simp add: fun_upd_idem)

lemma acquire_free: "\<not> sl_locked (bcache_lock s i) \<Longrightarrow> acquire i s = Some (acquired i s)"
  by (simp add: acquire_def acquired_def)

lemma acquire_held: "sl_locked (bcache_lock s i) \<Longrightarrow> acquire i s = None"
  by (simp add: acquire_def)

lemma acquired_fields [simp]:
  "bcache_buf (acquired i s) = bcache_buf s"
  "ticks (acquired i s) = ticks s"
  "buf_at (acquired i s) b = buf_at s b"
  by (simp_all add: acquired_def buf_at_def)

lemma release_upd_acquired:
  "\<not> sl_locked (bcache_lock s i) \<Longrightarrow>
     release i (upd_buf b f (acquired i s)) = (upd_buf b f s)\<lparr>trace := shard_trace i s\<rparr>"
  by (simp add: acquired_def release_def upd_buf_def buf_at_def lock_restore shard_trace_def)

lemma release_acquired:
  "\<not> sl_locked (bcache_lock s i) \<Longrightarrow> release i (acquired i s) = s\<lparr>trace := shard_trace i s\<rparr>"
  by (simp add: acquired_def release_def lock_restore shard_trace_def)

lemma bget_unlocked:
  assumes "\<not> sl_locked (bcache_lock s (unat bno mod NBUCKETS))"
  shows "bget NBUCKETS NBUF p dv bno s =
     (case bget_scan (bcache_buf s (unat bno mod NBUCKETS)) dv bno NBUF 0 None of
        Hit j \<Rightarrow>
          lock_and_return p (unat bno mod NBUCKETS, j)
            ((upd_buf (unat bno mod NBUCKETS, j) (\<lambda>x. x\<lparr>refcnt := refcnt x + 1\<rparr>) s)
               \<lparr>trace := shard_trace (unat bno mod NBUCKETS) s\<rparr>)
      | Miss (Some l) \<Rightarrow>
          lock_and_return p (unat bno mod NBUCKETS, l)
            ((upd_buf (unat bno mod NBUCKETS, l)
                (\<lambda>x. x\<lparr>dev := dv, blockno := bno, valid := False,
                        refcnt := 1, tstamp := ticks s\<rparr>) s)
               \<lparr>trace := shard_trace (unat bno mod NBUCKETS) s\<rparr>)
      | Miss None \<Rightarrow>
          Panics (s\<lparr>trace := shard_trace (unat bno mod NBUCKETS) s\<rparr>) ''bget: no buffers'')"
  unfolding bget_def Let_def acquire_free [OF assms] option.case acquired_fields
    release_upd_acquired [OF assms] release_acquired [OF assms] ..

lemma bget_Hit:
  assumes "\<not> sl_locked (bcache_lock s (unat bno mod NBUCKETS))"
    and "bget_scan (bcache_buf s (unat bno mod NBUCKETS)) dv bno NBUF 0 None = Hit j"
  shows "bget NBUCKETS NBUF p dv bno s =
           lock_and_return p (unat bno mod NBUCKETS, j) (referenced (unat bno mod NBUCKETS) j s)"
  by (simp add: bget_unlocked [OF assms(1)] assms(2) referenced_def)

lemma bget_Miss_Some:
  assumes "\<not> sl_locked (bcache_lock s (unat bno mod NBUCKETS))"
    and "bget_scan (bcache_buf s (unat bno mod NBUCKETS)) dv bno NBUF 0 None = Miss (Some l)"
  shows "bget NBUCKETS NBUF p dv bno s =
           lock_and_return p (unat bno mod NBUCKETS, l) (evicted (unat bno mod NBUCKETS) l dv bno s)"
  by (simp add: bget_unlocked [OF assms(1)] assms(2) evicted_def)

lemma bget_Miss_None:
  assumes "\<not> sl_locked (bcache_lock s (unat bno mod NBUCKETS))"
    and "bget_scan (bcache_buf s (unat bno mod NBUCKETS)) dv bno NBUF 0 None = Miss None"
  shows "bget NBUCKETS NBUF p dv bno s =
           Panics (s\<lparr>trace := shard_trace (unat bno mod NBUCKETS) s\<rparr>) ''bget: no buffers''"
  by (simp add: bget_unlocked [OF assms(1)] assms(2))

lemma bget_held:
  "sl_locked (bcache_lock s (unat bno mod NBUCKETS)) \<Longrightarrow>
     bget NBUCKETS NBUF p dv bno s = Waits s (ShardLock (unat bno mod NBUCKETS))"
  by (simp add: bget_def acquire_held)

lemma lock_and_return_free:
  "\<not> locked (lock (buf_at s b)) \<Longrightarrow> lock_and_return p b s = Returns (slept p b s) b"
  by (simp add: lock_and_return_def acquiresleep_def slept_def)

lemma lock_and_return_held:
  "locked (lock (buf_at s b)) \<Longrightarrow> lock_and_return p b s = Waits s (SlotLock b)"
  by (simp add: lock_and_return_def acquiresleep_def)

lemma evicted_fields [simp]:
  "bcache_lock (evicted i l dv bno s) = bcache_lock s"
  "ticks (evicted i l dv bno s) = ticks s"
  "disk (evicted i l dv bno s) = disk s"
  "trace (evicted i l dv bno s) = trace s @ [EvAcquire i, EvRelease i]"
  "bcache_buf (evicted i l dv bno s) i' j' =
     (if i' = i \<and> j' = l
      then (bcache_buf s i l)\<lparr>dev := dv, blockno := bno, valid := False,
                               refcnt := 1, tstamp := ticks s\<rparr>
      else bcache_buf s i' j')"
  by (simp_all add: evicted_def shard_trace_def)

lemma referenced_fields [simp]:
  "bcache_lock (referenced i j s) = bcache_lock s"
  "ticks (referenced i j s) = ticks s"
  "disk (referenced i j s) = disk s"
  "trace (referenced i j s) = trace s @ [EvAcquire i, EvRelease i]"
  "bcache_buf (referenced i j s) i' j' =
     (if i' = i \<and> j' = j then (bcache_buf s i j)\<lparr>refcnt := refcnt (bcache_buf s i j) + 1\<rparr>
      else bcache_buf s i' j')"
  by (simp_all add: referenced_def shard_trace_def)

lemma slept_fields [simp]:
  "bcache_lock (slept p b s) = bcache_lock s"
  "ticks (slept p b s) = ticks s"
  "disk (slept p b s) = disk s"
  "trace (slept p b s) = trace s @ [EvAcquireSleep b p]"
  "bcache_buf (slept p (i, j) s) i' j' =
     (if i' = i \<and> j' = j
      then (bcache_buf s i j)\<lparr>lock := (lock (bcache_buf s i j))\<lparr>locked := True, pid := p\<rparr>\<rparr>
      else bcache_buf s i' j')"
  by (simp_all add: slept_def)

subsection \<open>Recycling a slot\<close>

lemma bget_scan_from_start:
  assumes "\<forall>j<NBUF. \<not> (dev (bs j) = dv \<and> blockno (bs j) = bno)"
  shows "\<exists>lru. bget_scan bs dv bno NBUF 0 None = Miss lru \<and>
           (case lru of None \<Rightarrow> (\<forall>k<NBUF. refcnt (bs k) \<noteq> 0) | Some l \<Rightarrow> lru_victim bs NBUF l)"
proof -
  have "\<forall>k. 0 \<le> k \<and> k < NBUF \<longrightarrow> \<not> matches (bs k) dv bno"
    using assms by (simp add: matches_def)
  moreover have "lru_inv bs 0 None" by (simp add: lru_inv_def)
  ultimately obtain lru where "bget_scan bs dv bno NBUF 0 None = Miss lru" "lru_inv bs NBUF lru"
    using bget_scan_miss [of 0 NBUF bs dv bno None] by auto
  then show ?thesis by (auto simp: lru_inv_def lru_victim_def split: option.splits)
qed

text \<open>
  Claim C1. When no slot of the target bucket matches the requested identity, the slot
  that \<^verbatim>\<open>bget\<close> reassigns is an unreferenced slot of that bucket with the smallest
  \<^verbatim>\<open>tstamp\<close> among the unreferenced ones, the first such in scan order; a slot with a
  nonzero \<^verbatim>\<open>refcnt\<close> is never chosen. When every slot is referenced none is chosen.
  (The shard lock is free at the call, as it is between calls; on a held lock the caller
  spins and nothing is scanned.)
\<close>

theorem bget_evicts_lru:
  assumes "\<not> sl_locked (bcache_lock s (unat bno mod NBUCKETS))"
    and "\<forall>j<NBUF. \<not> (dev (bcache_buf s (unat bno mod NBUCKETS) j) = dv \<and>
                     blockno (bcache_buf s (unat bno mod NBUCKETS) j) = bno)"
  shows "(\<exists>l s'. lru_victim (bcache_buf s (unat bno mod NBUCKETS)) NBUF l \<and>
            (bget NBUCKETS NBUF p dv bno s = Returns s' (unat bno mod NBUCKETS, l) \<or>
             bget NBUCKETS NBUF p dv bno s = Waits s' (SlotLock (unat bno mod NBUCKETS, l))) \<and>
            dev (bcache_buf s' (unat bno mod NBUCKETS) l) = dv \<and>
            blockno (bcache_buf s' (unat bno mod NBUCKETS) l) = bno) \<or>
         ((\<forall>j<NBUF. refcnt (bcache_buf s (unat bno mod NBUCKETS) j) \<noteq> 0) \<and>
          (\<exists>s'. bget NBUCKETS NBUF p dv bno s = Panics s' ''bget: no buffers''))"
proof -
  let ?id = "unat bno mod NBUCKETS"
  from bget_scan_from_start [OF assms(2)] obtain lru where
    sc: "bget_scan (bcache_buf s ?id) dv bno NBUF 0 None = Miss lru" and
    ch: "case lru of None \<Rightarrow> (\<forall>k<NBUF. refcnt (bcache_buf s ?id k) \<noteq> 0)
         | Some l \<Rightarrow> lru_victim (bcache_buf s ?id) NBUF l"
    by blast
  show ?thesis
  proof (cases lru)
    case None
    with sc ch show ?thesis by (simp add: bget_Miss_None [OF assms(1)])
  next
    case (Some l)
    with ch have v: "lru_victim (bcache_buf s ?id) NBUF l" by simp
    let ?e = "evicted ?id l dv bno s"
    from sc Some have b: "bget NBUCKETS NBUF p dv bno s = lock_and_return p (?id, l) ?e"
      by (simp add: bget_Miss_Some [OF assms(1)])
    show ?thesis
    proof (cases "locked (lock (buf_at ?e (?id, l)))")
      case True
      have "bget NBUCKETS NBUF p dv bno s = Waits ?e (SlotLock (?id, l))"
        by (simp only: b lock_and_return_held [OF True])
      with v show ?thesis by (intro disjI1 exI [of _ l] exI [of _ ?e]) simp
    next
      case False
      have "bget NBUCKETS NBUF p dv bno s = Returns (slept p (?id, l) ?e) (?id, l)"
        by (simp only: b lock_and_return_free [OF False])
      with v show ?thesis by (intro disjI1 exI [of _ l] exI [of _ "slept p (?id, l) ?e"]) simp
    qed
  qed
qed

text \<open>
  In the example bucket, slot 0 is the oldest but is referenced; slots 1 and 2 are free
  with time stamps 7 and 5: slot 2 is chosen.
\<close>

theorem bget_evicts_lru_witness:
  "refcnt (bcache_buf ex_state 0 0) \<noteq> 0 \<and>
   tstamp (bcache_buf ex_state 0 0) < tstamp (bcache_buf ex_state 0 2) \<and>
   (\<exists>s'. bget 2 3 5 1 8 ex_state = Returns s' (0, 2) \<or>
         bget 2 3 5 1 8 ex_state = Waits s' (SlotLock (0, 2)))"
proof -
  have free: "\<not> sl_locked (bcache_lock ex_state (unat (8 :: uint) mod 2))"
    by (simp add: ex_state_def)
  have nomatch: "\<forall>j<3. \<not> (dev (bcache_buf ex_state (unat (8 :: uint) mod 2) j) = 1 \<and>
                     blockno (bcache_buf ex_state (unat (8 :: uint) mod 2) j) = 8)"
    by (simp add: ex_state_def ex_buf_def)
  have pinned: "refcnt (bcache_buf ex_state 0 0) \<noteq> 0"
      "tstamp (bcache_buf ex_state 0 0) < tstamp (bcache_buf ex_state 0 2)"
    by (simp_all add: ex_state_def ex_buf_def)
  have b0: "bcache_buf ex_state 0 0 = ex_buf 1 2 1 0"
    and b1: "bcache_buf ex_state 0 (Suc 0) = ex_buf 1 4 0 7"
    and b2: "bcache_buf ex_state 0 2 = ex_buf 1 6 0 5"
    by (simp_all add: ex_state_def)
  have v: "l = 2" if a: "lru_victim (bcache_buf ex_state 0) 3 l" for l
  proof -
    from a have "l < 3" by (simp add: lru_victim_def)
    then consider "l = 0" | "l = 1" | "l = 2" by linarith
    then show ?thesis
    proof cases
      case 1
      with a show ?thesis by (simp add: lru_victim_def b0 ex_buf_def)
    next
      case 2
      from a have "refcnt (bcache_buf ex_state 0 2) = 0 \<longrightarrow>
          tstamp (bcache_buf ex_state 0 l) \<le> tstamp (bcache_buf ex_state 0 2)"
        by (simp add: lru_victim_def)
      with 2 show ?thesis by (simp add: b1 b2 ex_buf_def)
    next
      case 3
      then show ?thesis .
    qed
  qed
  have v2: "lru_victim (bcache_buf ex_state 0) 3 2"
    unfolding lru_victim_def
  proof (intro conjI allI impI)
    show "(2::nat) < 3" by simp
    show "refcnt (bcache_buf ex_state 0 2) = 0" by (simp add: b2 ex_buf_def)
  next
    fix k :: nat assume "k < 3" and r: "refcnt (bcache_buf ex_state 0 k) = 0"
    then consider "k = 0" | "k = 1" | "k = 2" by linarith
    then show "tstamp (bcache_buf ex_state 0 2) \<le> tstamp (bcache_buf ex_state 0 k)"
    proof cases
      case 1 with r show ?thesis by (simp add: b0 ex_buf_def)
    next
      case 2 then show ?thesis by (simp add: b1 b2 ex_buf_def)
    next
      case 3 then show ?thesis by simp
    qed
  next
    fix k :: nat assume "k < 2" and r: "refcnt (bcache_buf ex_state 0 k) = 0"
    then consider "k = 0" | "k = 1" by linarith
    then show "tstamp (bcache_buf ex_state 0 2) < tstamp (bcache_buf ex_state 0 k)"
    proof cases
      case 1 with r show ?thesis by (simp add: b0 ex_buf_def)
    next
      case 2 then show ?thesis by (simp add: b1 b2 ex_buf_def)
    qed
  qed
  have elig: "\<not> (\<forall>j<3. refcnt (bcache_buf ex_state 0 j) \<noteq> 0)"
  proof
    assume "\<forall>j<3. refcnt (bcache_buf ex_state 0 j) \<noteq> 0"
    then have "refcnt (bcache_buf ex_state 0 2) \<noteq> 0" by simp
    then show False by (simp add: b2 ex_buf_def)
  qed
  from bget_evicts_lru [OF free nomatch, of 5] elig
  obtain l s' where "lru_victim (bcache_buf ex_state 0) 3 l"
     "bget 2 3 5 1 8 ex_state = Returns s' (0, l) \<or>
      bget 2 3 5 1 8 ex_state = Waits s' (SlotLock (0, l))"
    by auto
  with v [of l] have "\<exists>s'. bget 2 3 5 1 8 ex_state = Returns s' (0, 2) \<or>
         bget 2 3 5 1 8 ex_state = Waits s' (SlotLock (0, 2))"
    by auto
  with pinned show ?thesis by blast
qed



text \<open>
  Claim C3. When no slot of the target bucket matches and every slot of the bucket is
  referenced, \<^verbatim>\<open>bget\<close> takes and releases the shard lock, changes nothing else, and
  panics: it does not return. (The shard lock is free at the call, as it is between
  calls.)
\<close>

theorem bget_no_buffers:
  assumes "\<not> sl_locked (bcache_lock s (unat bno mod NBUCKETS))"
    and "\<forall>j<NBUF. \<not> (dev (bcache_buf s (unat bno mod NBUCKETS) j) = dv \<and>
                     blockno (bcache_buf s (unat bno mod NBUCKETS) j) = bno)"
    and "\<forall>j<NBUF. refcnt (bcache_buf s (unat bno mod NBUCKETS) j) \<noteq> 0"
  shows "bget NBUCKETS NBUF p dv bno s =
           Panics (s\<lparr>trace := trace s @ [EvAcquire (unat bno mod NBUCKETS),
                                          EvRelease (unat bno mod NBUCKETS)]\<rparr>)
                  ''bget: no buffers''"
proof -
  let ?id = "unat bno mod NBUCKETS"
  from bget_scan_from_start [OF assms(2)] obtain lru where
    sc: "bget_scan (bcache_buf s ?id) dv bno NBUF 0 None = Miss lru" and
    ch: "case lru of None \<Rightarrow> (\<forall>k<NBUF. refcnt (bcache_buf s ?id k) \<noteq> 0)
         | Some l \<Rightarrow> lru_victim (bcache_buf s ?id) NBUF l"
    by blast
  from ch assms(3) have "lru = None"
    by (cases lru) (auto simp: lru_victim_def)
  with sc show ?thesis
    by (simp add: bget_Miss_None [OF assms(1)] shard_trace_def)
qed

theorem bget_no_buffers_witness:
  "bget 2 1 5 1 8 ex_state = Panics (ex_state\<lparr>trace := [EvAcquire 0, EvRelease 0]\<rparr>) ''bget: no buffers''"
proof -
  have free: "\<not> sl_locked (bcache_lock ex_state (unat (8 :: uint) mod 2))"
    by (simp add: ex_state_def)
  have nomatch: "\<forall>j<1. \<not> (dev (bcache_buf ex_state (unat (8 :: uint) mod 2) j) = 1 \<and>
                     blockno (bcache_buf ex_state (unat (8 :: uint) mod 2) j) = 8)"
    by (simp add: ex_state_def ex_buf_def)
  have pinned: "\<forall>j<1. refcnt (bcache_buf ex_state (unat (8 :: uint) mod 2) j) \<noteq> 0"
    by (simp add: ex_state_def ex_buf_def)
  have e: "trace ex_state = []" "unat (8 :: uint) mod 2 = 0"
    by (simp_all add: ex_state_def)
  from bget_no_buffers [OF free nomatch pinned, of 5] show ?thesis
    unfolding e by simp
qed

subsection \<open>bget by cases, and bread\<close>

lemma bget_scan_Miss_Some:
  assumes "bget_scan bs dv bno NBUF 0 None = Miss (Some l)"
  shows "lru_victim bs NBUF l"
proof -
  from bget_scan_Miss_nomatch [OF assms]
  have "\<forall>j<NBUF. \<not> (dev (bs j) = dv \<and> blockno (bs j) = bno)"
    by (simp add: matches_def)
  from bget_scan_from_start [OF this] assms show ?thesis by auto
qed

lemma bget_cases [case_names spin hit_ret hit_wait evict_ret evict_wait panic]:
  fixes NBUCKETS NBUF p dv bno s
  defines "bk \<equiv> unat bno mod NBUCKETS"
  defines "sc \<equiv> bget_scan (bcache_buf s bk) dv bno NBUF 0 None"
  defines "r \<equiv> bget NBUCKETS NBUF p dv bno s"
  obtains
    "sl_locked (bcache_lock s bk)" "r = Waits s (ShardLock bk)"
  | j where "\<not> sl_locked (bcache_lock s bk)" "sc = Hit j" "\<not> locked (lock (bcache_buf s bk j))"
      "r = Returns (slept p (bk, j) (referenced bk j s)) (bk, j)"
  | j where "\<not> sl_locked (bcache_lock s bk)" "sc = Hit j" "locked (lock (bcache_buf s bk j))"
      "r = Waits (referenced bk j s) (SlotLock (bk, j))"
  | l where "\<not> sl_locked (bcache_lock s bk)" "sc = Miss (Some l)"
      "\<not> locked (lock (bcache_buf s bk l))"
      "r = Returns (slept p (bk, l) (evicted bk l dv bno s)) (bk, l)"
  | l where "\<not> sl_locked (bcache_lock s bk)" "sc = Miss (Some l)"
      "locked (lock (bcache_buf s bk l))"
      "r = Waits (evicted bk l dv bno s) (SlotLock (bk, l))"
  | "\<not> sl_locked (bcache_lock s bk)" "sc = Miss None"
      "r = Panics (s\<lparr>trace := shard_trace bk s\<rparr>) ''bget: no buffers''"
proof (cases "sl_locked (bcache_lock s bk)")
  case True
  then have "r = Waits s (ShardLock bk)"
    unfolding r_def bk_def by (rule bget_held)
  with True show ?thesis by (rule that(1))
next
  case free: False
  show ?thesis
  proof (cases sc)
    case (Hit j)
    have b: "r = lock_and_return p (bk, j) (referenced bk j s)"
      using free Hit unfolding r_def bk_def sc_def by (rule bget_Hit)
    show ?thesis
    proof (cases "locked (lock (bcache_buf s bk j))")
      case True
      then have "locked (lock (buf_at (referenced bk j s) (bk, j)))" by simp
      then have "r = Waits (referenced bk j s) (SlotLock (bk, j))"
        unfolding b by (rule lock_and_return_held)
      with free Hit True show ?thesis by (rule that(3))
    next
      case False
      then have "\<not> locked (lock (buf_at (referenced bk j s) (bk, j)))" by simp
      then have "r = Returns (slept p (bk, j) (referenced bk j s)) (bk, j)"
        unfolding b by (rule lock_and_return_free)
      with free Hit False show ?thesis by (rule that(2))
    qed
  next
    case (Miss lru)
    show ?thesis
    proof (cases lru)
      case None
      with Miss have m: "sc = Miss None" by simp
      have "r = Panics (s\<lparr>trace := shard_trace bk s\<rparr>) ''bget: no buffers''"
        using free m unfolding r_def bk_def sc_def by (rule bget_Miss_None)
      with free m show ?thesis by (rule that(6))
    next
      case (Some l)
      with Miss have m: "sc = Miss (Some l)" by simp
      have b: "r = lock_and_return p (bk, l) (evicted bk l dv bno s)"
        using free m unfolding r_def bk_def sc_def by (rule bget_Miss_Some)
      show ?thesis
      proof (cases "locked (lock (bcache_buf s bk l))")
        case True
        then have "locked (lock (buf_at (evicted bk l dv bno s) (bk, l)))" by simp
        then have "r = Waits (evicted bk l dv bno s) (SlotLock (bk, l))"
          unfolding b by (rule lock_and_return_held)
        with free m True show ?thesis by (rule that(5))
      next
        case False
        then have "\<not> locked (lock (buf_at (evicted bk l dv bno s) (bk, l)))" by simp
        then have "r = Returns (slept p (bk, l) (evicted bk l dv bno s)) (bk, l)"
          unfolding b by (rule lock_and_return_free)
        with free m False show ?thesis by (rule that(4))
      qed
    qed
  qed
qed

lemma bget_Returns:
  assumes "bget NBUCKETS NBUF p dv bno s = Returns s1 b"
  shows "holdingsleep p b s1 \<and> fst b = unat bno mod NBUCKETS \<and> snd b < NBUF \<and>
         dev (buf_at s1 b) = dv \<and> blockno (buf_at s1 b) = bno \<and>
         \<not> sl_locked (bcache_lock s (unat bno mod NBUCKETS))"
proof (cases rule: bget_cases [where s = s and bno = bno and NBUCKETS = NBUCKETS and dv = dv and NBUF = NBUF and p = p])
  case spin
  with assms show ?thesis by simp
next
  case (hit_ret j)
  from bget_scan_Hit [OF hit_ret(2)] have "j < NBUF" "matches (bcache_buf s (unat bno mod NBUCKETS) j) dv bno"
    by simp_all
  with hit_ret assms show ?thesis by (auto simp: holdingsleep_def matches_def)
next
  case (hit_wait j)
  with assms show ?thesis by simp
next
  case (evict_ret l)
  from bget_scan_Miss_Some [OF evict_ret(2)] have "l < NBUF" by (simp add: lru_victim_def)
  with evict_ret assms show ?thesis by (auto simp: holdingsleep_def)
next
  case (evict_wait l)
  with assms show ?thesis by simp
next
  case panic
  with assms show ?thesis by simp
qed

lemma buf_at_other_fields [simp]:
  "buf_at (s\<lparr>trace := t\<rparr>) b = buf_at s b"
  "buf_at (s\<lparr>disk := d\<rparr>) b = buf_at s b"
  "buf_at (s\<lparr>ticks := k\<rparr>) b = buf_at s b"
  "buf_at (s\<lparr>bcache_lock := l\<rparr>) b = buf_at s b"
  by (simp_all add: buf_at_def)

lemma filled_fields [simp]:
  "bcache_lock (filled b s) = bcache_lock s"
  "ticks (filled b s) = ticks s"
  "disk (filled b s) = disk s"
  "trace (filled b s) = trace s @ [EvDiskRW b False]"
  "buf_at (filled b s) c =
     (if c = b
      then (buf_at s b)\<lparr>data := disk s (dev (buf_at s b), blockno (buf_at s b)), valid := True\<rparr>
      else buf_at s c)"
  by (simp_all add: filled_def virtio_disk_rw_def Let_def buf_at_upd_buf)

lemma bread_Returns:
  assumes "bread NBUCKETS NBUF p dv bno s = Returns s' b"
  shows "\<exists>s1. bget NBUCKETS NBUF p dv bno s = Returns s1 b \<and>
           s' = (if valid (buf_at s1 b) then s1 else filled b s1)"
  using assms
  by (cases "bget NBUCKETS NBUF p dv bno s")
     (auto simp: bread_def filled_def split: if_splits)





subsection \<open>The lock discipline of bwrite and brelse\<close>

text \<open>
  Claim C6. \<^verbatim>\<open>bwrite\<close> and \<^verbatim>\<open>brelse\<close> on a slot whose lock the caller does not hold
  panic, and leave the state as it was: in particular \<^verbatim>\<open>bwrite\<close> has not called the
  driver and the disk is unchanged.
\<close>

theorem bwrite_brelse_not_holding:
  assumes "\<not> holdingsleep p b s"
  shows "bwrite p b s = Panics s ''bwrite'' \<and> brelse NBUCKETS p b s = Panics s ''brelse''"
  using assms by (simp add: bwrite_def brelse_def)

theorem bwrite_brelse_not_holding_witness:
  "bwrite 5 (0, 1) ex_state = Panics ex_state ''bwrite'' \<and>
   brelse 2 5 (0, 1) ex_state = Panics ex_state ''brelse''"
proof -
  have "\<not> holdingsleep 5 (0, 1) ex_state"
    by (simp add: holdingsleep_def ex_state_def ex_buf_def)
  from bwrite_brelse_not_holding [OF this] show ?thesis .
qed

subsection \<open>binit\<close>

lemma binit_bufs_fields [simp]:
  "bcache_lock (binit_bufs i n s) = bcache_lock s"
  "ticks (binit_bufs i n s) = ticks s"
  "disk (binit_bufs i n s) = disk s"
  "trace (binit_bufs i n s) = trace s"
  by (induction n) simp_all

lemma binit_bufs_buf:
  "bcache_buf (binit_bufs i n s) i' j =
     (if i' = i \<and> j < n
      then (bcache_buf s i j)\<lparr>lock := initsleeplock (lock (bcache_buf s i j)) ''buffer''\<rparr>
      else bcache_buf s i' j)"
  by (induction n) (auto simp: less_Suc_eq)

lemma binit_buckets_fields [simp]:
  "ticks (binit_buckets NBUF n s) = ticks s"
  "disk (binit_buckets NBUF n s) = disk s"
  "trace (binit_buckets NBUF n s) = trace s"
  by (induction n) (simp_all add: Let_def)

lemma binit_buckets_lock:
  "bcache_lock (binit_buckets NBUF n s) i =
     (if i < n then initlock (bcache_lock s i) ''bcache'' else bcache_lock s i)"
  by (induction n) (auto simp: Let_def less_Suc_eq)

lemma binit_buckets_buf:
  "bcache_buf (binit_buckets NBUF n s) i j =
     (if i < n \<and> j < NBUF
      then (bcache_buf s i j)\<lparr>lock := initsleeplock (lock (bcache_buf s i j)) ''buffer''\<rparr>
      else bcache_buf s i j)"
  by (induction n) (auto simp: Let_def binit_bufs_buf less_Suc_eq)

text \<open>
  Claim C8. After \<^verbatim>\<open>binit\<close> on the zero-initialised \<^verbatim>\<open>bcache\<close>, every slot of every
  bucket is unlocked, invalid and unreferenced, its lock initialised under the name
  "buffer", and every shard lock is initialised under the name "bcache" and free.
\<close>

theorem binit_state:
  assumes "i < NBUCKETS" and "j < NBUF"
  shows "\<not> locked (lock (bcache_buf (binit NBUCKETS NBUF (bcache_zero d)) i j)) \<and>
         \<not> valid (bcache_buf (binit NBUCKETS NBUF (bcache_zero d)) i j) \<and>
         refcnt (bcache_buf (binit NBUCKETS NBUF (bcache_zero d)) i j) = 0 \<and>
         lock (bcache_buf (binit NBUCKETS NBUF (bcache_zero d)) i j) =
           initsleeplock (lock zero_buf) ''buffer'' \<and>
         name (lock (bcache_buf (binit NBUCKETS NBUF (bcache_zero d)) i j)) = ''buffer'' \<and>
         bcache_lock (binit NBUCKETS NBUF (bcache_zero d)) i =
           \<lparr>sl_locked = False, sl_name = ''bcache''\<rparr> \<and>
         trace (binit NBUCKETS NBUF (bcache_zero d)) = []"
  using assms
  by (simp add: binit_def binit_buckets_buf binit_buckets_lock bcache_zero_def zero_buf_def
        initsleeplock_def initlock_def)

theorem binit_state_witness:
  "\<not> locked (lock (bcache_buf (binit 2 3 (bcache_zero (\<lambda>_ _. 0))) 1 2)) \<and>
   \<not> valid (bcache_buf (binit 2 3 (bcache_zero (\<lambda>_ _. 0))) 1 2) \<and>
   refcnt (bcache_buf (binit 2 3 (bcache_zero (\<lambda>_ _. 0))) 1 2) = 0 \<and>
   name (lock (bcache_buf (binit 2 3 (bcache_zero (\<lambda>_ _. 0))) 1 2)) = ''buffer'' \<and>
   bcache_lock (binit 2 3 (bcache_zero (\<lambda>_ _. 0))) 1 = \<lparr>sl_locked = False, sl_name = ''bcache''\<rparr>"
proof -
  have "(1::nat) < 2" and "(2::nat) < 3" by simp_all
  from binit_state [OF this, of "\<lambda>_ _. 0"] show ?thesis by blast
qed

subsection \<open>The reference count\<close>

lemma bunpin_free:
  assumes "\<not> sl_locked (bcache_lock s (unat (blockno (buf_at s b)) mod NBUCKETS))"
  shows "bunpin NBUCKETS b s =
           Returns ((upd_buf b (\<lambda>x. x\<lparr>refcnt := refcnt x - 1\<rparr>) s)
                      \<lparr>trace := shard_trace (unat (blockno (buf_at s b)) mod NBUCKETS) s\<rparr>) ()"
  unfolding bunpin_def Let_def acquire_free [OF assms] option.case
    release_upd_acquired [OF assms] ..

lemma bpin_free:
  assumes "\<not> sl_locked (bcache_lock s (unat (blockno (buf_at s b)) mod NBUCKETS))"
  shows "bpin NBUCKETS b s =
           Returns ((upd_buf b (\<lambda>x. x\<lparr>refcnt := refcnt x + 1\<rparr>) s)
                      \<lparr>trace := shard_trace (unat (blockno (buf_at s b)) mod NBUCKETS) s\<rparr>) ()"
  unfolding bpin_def Let_def acquire_free [OF assms] option.case
    release_upd_acquired [OF assms] ..

lemma releasesleep_fields [simp]:
  "bcache_lock (releasesleep b s) = bcache_lock s"
  "ticks (releasesleep b s) = ticks s"
  "disk (releasesleep b s) = disk s"
  "trace (releasesleep b s) = trace s @ [EvReleaseSleep b]"
  "buf_at (releasesleep b s) c =
     (if c = b then (buf_at s b)\<lparr>lock := (lock (buf_at s b))\<lparr>locked := False, pid := 0\<rparr>\<rparr>
      else buf_at s c)"
  by (simp_all add: releasesleep_def buf_at_upd_buf)

lemma released_fields [simp]:
  "bcache_lock (released i b s) = bcache_lock s"
  "ticks (released i b s) = ticks s"
  "disk (released i b s) = disk s"
  "trace (released i b s) = trace s @ [EvReleaseSleep b, EvAcquire i, EvRelease i]"
  "buf_at (released i b s) c =
     (if c = b then (buf_at s b)\<lparr>lock := (lock (buf_at s b))\<lparr>locked := False, pid := 0\<rparr>,
                                 refcnt := refcnt (buf_at s b) - 1, tstamp := ticks s\<rparr>
      else buf_at s c)"
  by (simp_all add: released_def buf_at_upd_buf)

lemma upd_buf_upd_buf: "upd_buf b g (upd_buf b f s) = upd_buf b (g \<circ> f) s"
  by (simp add: upd_buf_def buf_at_def)

lemma kstate_eqI:
  fixes s t :: kstate
  assumes "bcache_lock s = bcache_lock t" and "\<And>c. buf_at s c = buf_at t c"
    and "ticks s = ticks t" and "disk s = disk t" and "trace s = trace t"
  shows "s = t"
proof -
  have "bcache_buf s = bcache_buf t"
  proof (intro ext)
    fix i j
    from assms(2) [of "(i, j)"] show "bcache_buf s i j = bcache_buf t i j" by simp
  qed
  with assms show ?thesis by simp
qed

lemma brelse_free:
  assumes "holdingsleep p b s"
    and "\<not> sl_locked (bcache_lock s (unat (blockno (buf_at s b)) mod NBUCKETS))"
  shows "brelse NBUCKETS p b s =
           Returns (released (unat (blockno (buf_at s b)) mod NBUCKETS) b s) ()"
proof -
  let ?s1 = "releasesleep b s"
  let ?i = "unat (blockno (buf_at s b)) mod NBUCKETS"
  have i: "unat (blockno (buf_at ?s1 b)) mod NBUCKETS = ?i" by simp
  have free: "\<not> sl_locked (bcache_lock ?s1 ?i)" using assms(2) by simp
  have "brelse NBUCKETS p b s =
      Returns (release ?i (upd_buf b (\<lambda>x. x\<lparr>tstamp := ticks s\<rparr>)
                 (upd_buf b (\<lambda>x. x\<lparr>refcnt := refcnt x - 1\<rparr>) (acquired ?i ?s1)))) ()"
    using assms(1) by (simp add: brelse_def Let_def acquire_free [OF free])
  also have "release ?i (upd_buf b (\<lambda>x. x\<lparr>tstamp := ticks s\<rparr>)
                 (upd_buf b (\<lambda>x. x\<lparr>refcnt := refcnt x - 1\<rparr>) (acquired ?i ?s1))) =
             released ?i b s"
    unfolding upd_buf_upd_buf release_upd_acquired [OF free]
    by (rule kstate_eqI) (simp_all add: buf_at_upd_buf shard_trace_def)
  finally show ?thesis .
qed

lemma brelse_held:
  assumes "holdingsleep p b s"
    and "sl_locked (bcache_lock s (unat (blockno (buf_at s b)) mod NBUCKETS))"
  shows "brelse NBUCKETS p b s =
           Waits (releasesleep b s) (ShardLock (unat (blockno (buf_at s b)) mod NBUCKETS))"
  using assms by (simp add: brelse_def Let_def acquire_held)












subsection \<open>What a call changes\<close>

lemma buf_at_named [simp]:
  "buf_at (slept p b s) c =
     (if c = b then (buf_at s b)\<lparr>lock := (lock (buf_at s b))\<lparr>locked := True, pid := p\<rparr>\<rparr>
      else buf_at s c)"
  "buf_at (evicted i l dv bno s) c =
     (if c = (i, l)
      then (buf_at s (i, l))\<lparr>dev := dv, blockno := bno, valid := False,
                               refcnt := 1, tstamp := ticks s\<rparr>
      else buf_at s c)"
  "buf_at (referenced i j s) c =
     (if c = (i, j) then (buf_at s (i, j))\<lparr>refcnt := refcnt (buf_at s (i, j)) + 1\<rparr>
      else buf_at s c)"
  by (simp_all add: slept_def evicted_def referenced_def buf_at_upd_buf del: buf_at_pair)

lemma bcache_buf_named [simp]:
  "bcache_buf (filled b s) i j =
     (if (i, j) = b
      then (buf_at s b)\<lparr>data := disk s (dev (buf_at s b), blockno (buf_at s b)), valid := True\<rparr>
      else bcache_buf s i j)"
  "bcache_buf (released k b s) i j =
     (if (i, j) = b
      then (buf_at s b)\<lparr>lock := (lock (buf_at s b))\<lparr>locked := False, pid := 0\<rparr>,
                          refcnt := refcnt (buf_at s b) - 1, tstamp := ticks s\<rparr>
      else bcache_buf s i j)"
  using filled_fields(5) [of b s "(i, j)"] released_fields(5) [of k b s "(i, j)"]
  by simp_all

lemma changesI_keeps:
  assumes "bcache_lock s' = bcache_lock s" and "\<And>c. c \<noteq> b \<Longrightarrow> buf_at s' c = buf_at s c"
    and "keeps NBUCKETS s s' b"
  shows "changes NBUCKETS NBUF s s'"
  using assms unfolding changes_def by blast

lemma changesI_recycles:
  assumes "bcache_lock s' = bcache_lock s" and "\<And>c. c \<noteq> b \<Longrightarrow> buf_at s' c = buf_at s c"
    and "recycles NBUCKETS NBUF s s' b"
  shows "changes NBUCKETS NBUF s s'"
  using assms unfolding changes_def by blast

lemma bread_eq:
  "bread NBUCKETS NBUF p dv bno s =
     (case bget NBUCKETS NBUF p dv bno s of
        Returns s1 b \<Rightarrow> Returns (if valid (buf_at s1 b) then s1 else filled b s1) b
      | Panics s1 m \<Rightarrow> Panics s1 m
      | Waits s1 l \<Rightarrow> Waits s1 l)"
  by (simp add: bread_def filled_def split: outcome.split)

lemma bread_resume_eq:
  "bread_resume p b s =
     (if locked (lock (buf_at s b)) then Waits s (SlotLock b)
      else Returns (if valid (buf_at s b) then slept p b s else filled b (slept p b s)) b)"
  by (simp add: bread_resume_def lock_and_return_free lock_and_return_held filled_def)

lemma keeps_hit:
  assumes "matches (bcache_buf s i j) dv bno" and "i = unat bno mod NBUCKETS"
    and "dev (buf_at s' (i, j)) = dev (bcache_buf s i j)"
    and "blockno (buf_at s' (i, j)) = blockno (bcache_buf s i j)"
  shows "keeps NBUCKETS s s' (i, j)"
  using assms by (simp add: keeps_def home_def matches_def)

lemma recycles_evict:
  assumes "bget_scan (bcache_buf s i) dv bno NBUF 0 None = Miss (Some l)"
    and "i = unat bno mod NBUCKETS"
    and "dev (buf_at s' (i, l)) = dv" and "blockno (buf_at s' (i, l)) = bno"
  shows "recycles NBUCKETS NBUF s s' (i, l)"
proof -
  from bget_scan_Miss_Some [OF assms(1)] have "l < NBUF" by (simp add: lru_victim_def)
  moreover from bget_scan_Miss_nomatch [OF assms(1)]
  have "\<forall>j<NBUF. \<not> matches (bcache_buf s i j) dv bno" by simp
  ultimately show ?thesis
    using assms(2-4) by (simp add: recycles_def home_def del: buf_at_pair)
qed

lemma bread_changes:
  assumes "\<not> sl_locked (bcache_lock s (unat bno mod NBUCKETS))"
    and "after (bread NBUCKETS NBUF p dv bno s) = Some s'"
  shows "changes NBUCKETS NBUF s s'"
proof (cases rule: bget_cases [where s = s and bno = bno and NBUCKETS = NBUCKETS and dv = dv
      and NBUF = NBUF and p = p])
  case spin
  with assms(1) show ?thesis by simp
next
  case (hit_ret j)
  let ?b = "(unat bno mod NBUCKETS, j)"
  let ?s1 = "slept p ?b (referenced (unat bno mod NBUCKETS) j s)"
  from bget_scan_Hit [OF hit_ret(2)]
  have m: "matches (bcache_buf s (unat bno mod NBUCKETS) j) dv bno" by simp
  from assms(2) hit_ret(4) have s': "s' = (if valid (buf_at ?s1 ?b) then ?s1 else filled ?b ?s1)"
    by (simp add: bread_eq)
  show ?thesis
  proof (rule changesI_keeps [where b = ?b])
    show "bcache_lock s' = bcache_lock s" by (simp add: s')
    show "buf_at s' c = buf_at s c" if "c \<noteq> ?b" for c
      using that by (simp add: s' del: buf_at_pair)
    show "keeps NBUCKETS s s' ?b"
      by (rule keeps_hit [OF m refl]) (simp_all add: s' buf_at_pair [symmetric] del: buf_at_pair)
  qed
next
  case (hit_wait j)
  let ?b = "(unat bno mod NBUCKETS, j)"
  from bget_scan_Hit [OF hit_wait(2)]
  have m: "matches (bcache_buf s (unat bno mod NBUCKETS) j) dv bno" by simp
  from assms(2) hit_wait(4) have s': "s' = referenced (unat bno mod NBUCKETS) j s"
    by (simp add: bread_eq)
  show ?thesis
  proof (rule changesI_keeps [where b = ?b])
    show "bcache_lock s' = bcache_lock s" by (simp add: s')
    show "buf_at s' c = buf_at s c" if "c \<noteq> ?b" for c
      using that by (simp add: s' del: buf_at_pair)
    show "keeps NBUCKETS s s' ?b"
      by (rule keeps_hit [OF m refl]) (simp_all add: s' buf_at_pair [symmetric] del: buf_at_pair)
  qed
next
  case (evict_ret l)
  let ?b = "(unat bno mod NBUCKETS, l)"
  let ?s1 = "slept p ?b (evicted (unat bno mod NBUCKETS) l dv bno s)"
  from assms(2) evict_ret(4) have s': "s' = (if valid (buf_at ?s1 ?b) then ?s1 else filled ?b ?s1)"
    by (simp add: bread_eq)
  show ?thesis
  proof (rule changesI_recycles [where b = ?b])
    show "bcache_lock s' = bcache_lock s" by (simp add: s')
    show "buf_at s' c = buf_at s c" if "c \<noteq> ?b" for c
      using that by (simp add: s' del: buf_at_pair)
    show "recycles NBUCKETS NBUF s s' ?b"
      by (rule recycles_evict [OF evict_ret(2) refl]) (simp_all add: s' buf_at_pair [symmetric] del: buf_at_pair)
  qed
next
  case (evict_wait l)
  let ?b = "(unat bno mod NBUCKETS, l)"
  from assms(2) evict_wait(4) have s': "s' = evicted (unat bno mod NBUCKETS) l dv bno s"
    by (simp add: bread_eq)
  show ?thesis
  proof (rule changesI_recycles [where b = ?b])
    show "bcache_lock s' = bcache_lock s" by (simp add: s')
    show "buf_at s' c = buf_at s c" if "c \<noteq> ?b" for c
      using that by (simp add: s' del: buf_at_pair)
    show "recycles NBUCKETS NBUF s s' ?b"
      by (rule recycles_evict [OF evict_wait(2) refl]) (simp_all add: s' buf_at_pair [symmetric] del: buf_at_pair)
  qed
next
  case panic
  with assms(2) show ?thesis by (simp add: bread_eq)
qed

lemma keeps_same: "buf_at s' b = buf_at s b \<Longrightarrow> keeps NBUCKETS s s' b"
  by (simp add: keeps_def)

lemma step_changes:
  assumes "locks_free s" and "enabled NBUCKETS x s" and "step NBUCKETS NBUF x s = Some s'"
  shows "changes NBUCKETS NBUF s s'"
proof (cases x)
  case (Bread p dv bno)
  from assms(1) have "\<not> sl_locked (bcache_lock s (unat bno mod NBUCKETS))"
    by (simp add: locks_free_def)
  moreover from assms(3) Bread have "after (bread NBUCKETS NBUF p dv bno s) = Some s'" by simp
  ultimately show ?thesis by (rule bread_changes)
next
  case (Bwrite p b)
  with assms(3) have s': "s' = virtio_disk_rw b True s"
    by (simp add: bwrite_def split: if_splits)
  show ?thesis
  proof (rule changesI_keeps [where b = b])
    show "bcache_lock s' = bcache_lock s" by (simp add: s' virtio_disk_rw_def Let_def)
    show "buf_at s' c = buf_at s c" if "c \<noteq> b" for c
      by (simp add: s' virtio_disk_rw_def Let_def buf_at_def)
    show "keeps NBUCKETS s s' b"
      by (rule keeps_same) (simp add: s' virtio_disk_rw_def Let_def buf_at_def)
  qed
next
  case (Brelse p b)
  from assms(1) have f: "\<not> sl_locked (bcache_lock s (unat (blockno (buf_at s b)) mod NBUCKETS))"
    by (simp add: locks_free_def)
  from assms(3) Brelse have h: "holdingsleep p b s"
    by (auto simp: brelse_def split: if_splits)
  from assms(3) Brelse have s': "s' = released (unat (blockno (buf_at s b)) mod NBUCKETS) b s"
    by (simp add: brelse_free [OF h f])
  show ?thesis
  proof (rule changesI_keeps [where b = b])
    show "bcache_lock s' = bcache_lock s" by (simp add: s')
    show "buf_at s' c = buf_at s c" if "c \<noteq> b" for c
      using that by (simp add: s')
    show "keeps NBUCKETS s s' b" by (simp add: keeps_def s')
  qed
next
  case (Bpin b)
  from assms(1) have f: "\<not> sl_locked (bcache_lock s (unat (blockno (buf_at s b)) mod NBUCKETS))"
    by (simp add: locks_free_def)
  from assms(3) Bpin have s': "s' = (upd_buf b (\<lambda>x. x\<lparr>refcnt := refcnt x + 1\<rparr>) s)
      \<lparr>trace := shard_trace (unat (blockno (buf_at s b)) mod NBUCKETS) s\<rparr>"
    by (simp add: bpin_free [OF f])
  show ?thesis
  proof (rule changesI_keeps [where b = b])
    show "bcache_lock s' = bcache_lock s" by (simp add: s')
    show "buf_at s' c = buf_at s c" if "c \<noteq> b" for c
      using that by (simp add: s' buf_at_upd_buf)
    show "keeps NBUCKETS s s' b" by (simp add: keeps_def s' buf_at_upd_buf)
  qed
next
  case (Bunpin b)
  from assms(1) have f: "\<not> sl_locked (bcache_lock s (unat (blockno (buf_at s b)) mod NBUCKETS))"
    by (simp add: locks_free_def)
  from assms(3) Bunpin have s': "s' = (upd_buf b (\<lambda>x. x\<lparr>refcnt := refcnt x - 1\<rparr>) s)
      \<lparr>trace := shard_trace (unat (blockno (buf_at s b)) mod NBUCKETS) s\<rparr>"
    by (simp add: bunpin_free [OF f])
  show ?thesis
  proof (rule changesI_keeps [where b = b])
    show "bcache_lock s' = bcache_lock s" by (simp add: s')
    show "buf_at s' c = buf_at s c" if "c \<noteq> b" for c
      using that by (simp add: s' buf_at_upd_buf)
    show "keeps NBUCKETS s s' b" by (simp add: keeps_def s' buf_at_upd_buf)
  qed
next
  case (Wake p b)
  with assms(2) have hm: "home NBUCKETS s b" by simp
  from assms(3) Wake have s': "s' = (if locked (lock (buf_at s b)) then s
      else if valid (buf_at s b) then slept p b s else filled b (slept p b s))"
    by (simp add: bread_resume_eq split: if_splits)
  show ?thesis
  proof (rule changesI_keeps [where b = b])
    show "bcache_lock s' = bcache_lock s" by (simp add: s')
    show "buf_at s' c = buf_at s c" if "c \<noteq> b" for c
      using that by (simp add: s')
    show "keeps NBUCKETS s s' b" using hm by (simp add: keeps_def s')
  qed
next
  case Tick
  with assms(3) have s': "s' = s\<lparr>ticks := ticks s + 1\<rparr>" by auto
  show ?thesis
  proof (rule changesI_keeps [where b = "(0, 0)"])
    show "bcache_lock s' = bcache_lock s" by (simp add: s')
    show "buf_at s' c = buf_at s c" for c by (simp add: s')
    show "keeps NBUCKETS s s' (0, 0)" by (rule keeps_same) (simp add: s')
  qed
qed

subsection \<open>The invariant\<close>

lemma changes_locks_free:
  "changes NBUCKETS NBUF s s' \<Longrightarrow> locks_free s \<Longrightarrow> locks_free s'"
  by (simp add: changes_def locks_free_def)

lemma changesE:
  assumes "changes NBUCKETS NBUF s s'"
  obtains b where "\<And>c. c \<noteq> b \<Longrightarrow> buf_at s' c = buf_at s c"
    and "keeps NBUCKETS s s' b \<or> recycles NBUCKETS NBUF s s' b"
  using assms unfolding changes_def by blast

lemma changes_home:
  assumes "changes NBUCKETS NBUF s s'" and "home NBUCKETS s c"
  shows "home NBUCKETS s' c"
proof -
  from assms(1) obtain b where
    o: "\<And>c. c \<noteq> b \<Longrightarrow> buf_at s' c = buf_at s c" and
    k: "keeps NBUCKETS s s' b \<or> recycles NBUCKETS NBUF s s' b"
    by (rule changesE) blast
  show ?thesis
  proof (cases "c = b")
    case False
    from o [OF False] assms(2) show ?thesis by (simp add: home_def)
  next
    case True
    with k assms(2) show ?thesis by (auto simp: keeps_def recycles_def home_def)
  qed
qed

lemma changes_locked_home:
  assumes "changes NBUCKETS NBUF s s'" and "locked_home NBUCKETS s"
  shows "locked_home NBUCKETS s'"
  unfolding locked_home_def
proof (intro allI impI)
  fix c assume l: "locked (lock (buf_at s' c))"
  from assms(1) obtain b where
    o: "\<And>c. c \<noteq> b \<Longrightarrow> buf_at s' c = buf_at s c" and
    k: "keeps NBUCKETS s s' b \<or> recycles NBUCKETS NBUF s s' b"
    by (rule changesE) blast
  show "home NBUCKETS s' c"
  proof (cases "c = b")
    case False
    from o [OF False] l have "locked (lock (buf_at s c))" by simp
    with assms(2) have "home NBUCKETS s c" unfolding locked_home_def by blast
    with assms(1) show ?thesis by (rule changes_home)
  next
    case True
    from k show ?thesis
    proof
      assume kp: "keeps NBUCKETS s s' b"
      with l True have "locked (lock (buf_at s b)) \<or> home NBUCKETS s b" by (simp add: keeps_def)
      with assms(2) have "home NBUCKETS s b" unfolding locked_home_def by blast
      with assms(1) True show ?thesis by (simp add: changes_home)
    next
      assume "recycles NBUCKETS NBUF s s' b"
      with True show ?thesis by (simp add: recycles_def)
    qed
  qed
qed

lemma changes_assigned_home:
  assumes "changes NBUCKETS NBUF s s'" and "assigned_home NBUCKETS NBUF s"
  shows "assigned_home NBUCKETS NBUF s'"
  unfolding assigned_home_def
proof (intro allI impI)
  fix c assume a: "ident s' c \<noteq> (0, 0)"
  from assms(1) obtain b where
    o: "\<And>c. c \<noteq> b \<Longrightarrow> buf_at s' c = buf_at s c" and
    k: "keeps NBUCKETS s s' b \<or> recycles NBUCKETS NBUF s s' b"
    by (rule changesE) blast
  show "home NBUCKETS s' c \<and> snd c < NBUF"
  proof (cases "c = b \<and> recycles NBUCKETS NBUF s s' b")
    case True
    then show ?thesis by (simp add: recycles_def)
  next
    case False
    have "ident s c = ident s' c"
    proof (cases "c = b")
      case True
      with False k show ?thesis by (auto simp: ident_def keeps_def)
    next
      case ne: False
      from o [OF ne] show ?thesis by (simp add: ident_def)
    qed
    with a assms(2) have "home NBUCKETS s c \<and> snd c < NBUF"
      unfolding assigned_home_def by metis
    with assms(1) show ?thesis by (simp add: changes_home)
  qed
qed

lemma changes_bucket_unique:
  assumes "changes NBUCKETS NBUF s s'" and "bucket_unique NBUF s"
  shows "bucket_unique NBUF s'"
  unfolding bucket_unique_def
proof (intro allI impI, elim conjE)
  fix i j j'
  assume lt: "j < NBUF" "j' < NBUF" and e: "ident s' (i, j) = ident s' (i, j')"
    and a: "ident s' (i, j) \<noteq> (0, 0)"
  from assms(1) obtain b where
    o: "\<And>c. c \<noteq> b \<Longrightarrow> buf_at s' c = buf_at s c" and
    k: "keeps NBUCKETS s s' b \<or> recycles NBUCKETS NBUF s s' b"
    by (rule changesE) blast
  from k show "j = j'"
  proof
    assume kp: "keeps NBUCKETS s s' b"
    have "ident s' c = ident s c" for c
    proof (cases "c = b")
      case True
      with kp show ?thesis by (simp add: ident_def keeps_def)
    next
      case False
      from o [OF False] show ?thesis by (simp add: ident_def)
    qed
    with e a lt assms(2) show ?thesis unfolding bucket_unique_def by metis
  next
    assume r: "recycles NBUCKETS NBUF s s' b"
    then have nm: "\<forall>k<NBUF. ident s (fst b, k) \<noteq> ident s' b"
      by (auto simp: recycles_def matches_def ident_def)
    have same: "ident s' c = ident s c" if "c \<noteq> b" for c
      using o [OF that] by (simp add: ident_def)
    show ?thesis
    proof (rule ccontr)
      assume ne: "j \<noteq> j'"
      show False
      proof (cases "(i, j) = b")
        case True
        with ne have "(i, j') \<noteq> b" by auto
        then have "ident s' (i, j') = ident s (i, j')" by (rule same)
        with e True have "ident s (fst b, j') = ident s' b" by auto
        with nm lt show False by simp
      next
        case nb: False
        show False
        proof (cases "(i, j') = b")
          case True
          from nb have "ident s' (i, j) = ident s (i, j)" by (rule same)
          with e True have "ident s (fst b, j) = ident s' b" by auto
          with nm lt show False by simp
        next
          case False
          with nb e a have "ident s (i, j) = ident s (i, j')" "ident s (i, j) \<noteq> (0, 0)"
            by (simp_all add: same)
          with lt assms(2) ne show False unfolding bucket_unique_def by blast
        qed
      qed
    qed
  qed
qed

lemma changes_cache_inv:
  "changes NBUCKETS NBUF s s' \<Longrightarrow> cache_inv NBUCKETS NBUF s \<Longrightarrow> cache_inv NBUCKETS NBUF s'"
  by (simp add: cache_inv_def changes_locks_free changes_locked_home changes_assigned_home
        changes_bucket_unique)

lemma reaches_cache_inv:
  "reaches NBUCKETS NBUF s s' \<Longrightarrow> cache_inv NBUCKETS NBUF s \<Longrightarrow> cache_inv NBUCKETS NBUF s'"
proof (induction rule: reaches.induct)
  case start
  then show ?case .
next
  case (onward s1 x s2)
  then have i: "cache_inv NBUCKETS NBUF s1" by simp
  then have "locks_free s1" by (simp add: cache_inv_def)
  from step_changes [OF this onward.hyps(2,3)] i show ?case by (rule changes_cache_inv)
qed

lemma reaches_home:
  "reaches NBUCKETS NBUF s s' \<Longrightarrow> cache_inv NBUCKETS NBUF s \<Longrightarrow> home NBUCKETS s c \<Longrightarrow>
     home NBUCKETS s' c"
proof (induction rule: reaches.induct)
  case start
  then show ?case by simp
next
  case (onward s1 x s2)
  then have h: "home NBUCKETS s1 c" by simp
  from onward.hyps(1) onward.prems(1) have "cache_inv NBUCKETS NBUF s1" by (rule reaches_cache_inv)
  then have "locks_free s1" by (simp add: cache_inv_def)
  from step_changes [OF this onward.hyps(2,3)] h show ?case by (rule changes_home)
qed

lemma binit_buf_at:
  "buf_at (binit NBUCKETS NBUF (bcache_zero d)) c =
     (if fst c < NBUCKETS \<and> snd c < NBUF
      then zero_buf\<lparr>lock := initsleeplock (lock zero_buf) ''buffer''\<rparr> else zero_buf)"
  by (simp add: buf_at_def binit_def binit_buckets_buf bcache_zero_def)

lemma boot_cache_inv: "cache_inv NBUCKETS NBUF (binit NBUCKETS NBUF (bcache_zero d))"
proof -
  have "locks_free (binit NBUCKETS NBUF (bcache_zero d))"
    by (simp add: locks_free_def binit_def binit_buckets_lock bcache_zero_def initlock_def)
  moreover have "locked_home NBUCKETS (binit NBUCKETS NBUF (bcache_zero d))"
    unfolding locked_home_def
    by (intro allI impI) (simp add: binit_buf_at zero_buf_def initsleeplock_def split: if_splits)
  moreover have "assigned_home NBUCKETS NBUF (binit NBUCKETS NBUF (bcache_zero d))"
    unfolding assigned_home_def
    by (intro allI impI) (simp add: ident_def binit_buf_at zero_buf_def split: if_splits)
  moreover have "bucket_unique NBUF (binit NBUCKETS NBUF (bcache_zero d))"
    unfolding bucket_unique_def
    by (intro allI impI)
       (simp add: ident_def binit_buf_at zero_buf_def del: buf_at_pair split: if_splits)
  ultimately show ?thesis by (simp add: cache_inv_def)
qed

lemma reachable_cache_inv: "reachable NBUCKETS NBUF s \<Longrightarrow> cache_inv NBUCKETS NBUF s"
  unfolding reachable_def using reaches_cache_inv boot_cache_inv by blast

subsection \<open>Reachable states\<close>

lemma reaches_step:
  "enabled NBUCKETS x s \<Longrightarrow> step NBUCKETS NBUF x s = Some s' \<Longrightarrow> reaches NBUCKETS NBUF s s'"
  by (rule reaches.onward [OF reaches.start])

lemma reaches_trans:
  "reaches NBUCKETS NBUF s1 s2 \<Longrightarrow> reaches NBUCKETS NBUF s s1 \<Longrightarrow> reaches NBUCKETS NBUF s s2"
  by (induction rule: reaches.induct) (auto intro: reaches.onward)

lemma reachable_reaches:
  "reachable NBUCKETS NBUF s \<Longrightarrow> reaches NBUCKETS NBUF s s' \<Longrightarrow> reachable NBUCKETS NBUF s'"
  unfolding reachable_def using reaches_trans by blast

lemma reachable_boot: "0 < NBUCKETS \<Longrightarrow> reachable NBUCKETS NBUF (binit NBUCKETS NBUF (bcache_zero d))"
  unfolding reachable_def using reaches.start by blast

lemma reaches_bread:
  "bread NBUCKETS NBUF p dv bno s = Returns s' b \<Longrightarrow> reaches NBUCKETS NBUF s s'"
  by (rule reaches_step [where x = "Bread p dv bno"]) simp_all

lemma boot_state_buf: "bcache_buf boot_state i j =
    (if i < 1 \<and> j < 2 then zero_buf\<lparr>lock := initsleeplock (lock zero_buf) ''buffer''\<rparr>
     else zero_buf)"
proof -
  have "buf_at boot_state (i, j) =
      (if fst (i, j) < 1 \<and> snd (i, j) < 2
       then zero_buf\<lparr>lock := initsleeplock (lock zero_buf) ''buffer''\<rparr> else zero_buf)"
    unfolding boot_state_def by (rule binit_buf_at)
  then show ?thesis by simp
qed

lemma boot_state_fields:
  "\<not> sl_locked (bcache_lock boot_state i)" "ticks boot_state = 0" "trace boot_state = []"
  "disk boot_state = zero_disk"
proof -
  have "cache_inv 1 2 boot_state" unfolding boot_state_def by (rule boot_cache_inv)
  then show "\<not> sl_locked (bcache_lock boot_state i)"
    by (simp add: cache_inv_def locks_free_def)
  show "ticks boot_state = 0" "trace boot_state = []" "disk boot_state = zero_disk"
    by (simp_all add: boot_state_def binit_def bcache_zero_def)
qed

lemma boot_state_scan: "bget_scan (bcache_buf boot_state 0) 1 3 2 0 None = Miss (Some 0)"
  by (simp add: bget_scan.simps boot_state_buf zero_buf_def)

lemma boot_state_bread: "bread 1 2 5 1 3 boot_state = Returns read_state (0, 0)"
proof -
  have m: "unat (3 :: uint) mod 1 = 0" by simp
  have free: "\<not> sl_locked (bcache_lock boot_state (unat (3 :: uint) mod 1))"
    by (rule boot_state_fields)
  have sc: "bget_scan (bcache_buf boot_state (unat (3 :: uint) mod 1)) 1 3 2 0 None = Miss (Some 0)"
    unfolding m by (rule boot_state_scan)
  have "\<not> locked (lock (buf_at (evicted 0 0 1 3 boot_state) (0, 0)))"
    by (simp add: boot_state_buf zero_buf_def initsleeplock_def)
  then have "bget 1 2 5 1 3 boot_state =
      Returns (slept 5 (0, 0) (evicted 0 0 1 3 boot_state)) (0, 0)"
    using bget_Miss_Some [OF free sc, of 5] unfolding m by (simp add: lock_and_return_free)
  then show ?thesis by (simp add: bread_eq read_state_def)
qed

lemma reachable_boot_state: "reachable 1 2 boot_state"
  unfolding boot_state_def by (rule reachable_boot) simp

lemma reachable_read_state: "reachable 1 2 read_state"
  using reachable_boot_state reaches_bread [OF boot_state_bread] by (rule reachable_reaches)

lemma read_state_slot:
  "buf_at read_state (0, 0) =
     \<lparr>valid = True, dev = 1, blockno = 3,
      lock = \<lparr>locked = True, pid = 5, name = ''buffer''\<rparr>,
      refcnt = 1, tstamp = 0, data = (\<lambda>_. 0)\<rparr>"
  by (simp add: read_state_def boot_state_buf boot_state_fields zero_buf_def initsleeplock_def
        zero_disk_def)

subsection \<open>Identities\<close>

lemma unique_slot:
  assumes "cache_inv NBUCKETS NBUF s" and "ident s b = ident s c" and "ident s b \<noteq> (0, 0)"
  shows "c = b"
proof -
  from assms(1) have a: "assigned_home NBUCKETS NBUF s" and u: "bucket_unique NBUF s"
    by (simp_all add: cache_inv_def)
  from a assms(3) have hb: "home NBUCKETS s b" "snd b < NBUF"
    unfolding assigned_home_def by blast+
  from a assms(2,3) have hc: "home NBUCKETS s c" "snd c < NBUF"
    unfolding assigned_home_def by metis+
  from assms(2) have "blockno (buf_at s b) = blockno (buf_at s c)" by (simp add: ident_def)
  with hb(1) hc(1) have f: "fst c = fst b" by (simp add: home_def)
  have pb: "(fst b, snd b) = b" and pc: "(fst b, snd c) = c"
    using f by (simp_all add: prod_eq_iff)
  have "ident s (fst b, snd b) = ident s (fst b, snd c)" "ident s (fst b, snd b) \<noteq> (0, 0)"
    unfolding pb pc using assms(2,3) by simp_all
  with u hb(2) hc(2) have "snd b = snd c" unfolding bucket_unique_def by blast
  with f show ?thesis by (simp add: prod_eq_iff)
qed

text \<open>
  Claim C5, the counterexample. Right after \<^verbatim>\<open>binit\<close>, with one bucket of two slots,
  both slots carry the identity (device 0, block 0), the initial field values.
\<close>

theorem identity_unique_counterexample:
  "reachable 1 2 boot_state \<and> ident boot_state (0, 0) = ident boot_state (0, 1) \<and>
   (0 :: nat, 0 :: nat) \<noteq> (0, 1)"
proof (intro conjI)
  show "reachable 1 2 boot_state" by (rule reachable_boot_state)
  show "ident boot_state (0, 0) = ident boot_state (0, 1)"
    by (simp add: ident_def boot_state_buf)
  show "(0 :: nat, 0 :: nat) \<noteq> (0, 1)" by simp
qed

text \<open>
  Claim C5, amended. In every reachable state at most one slot carries a given identity
  other than (device 0, block 0), the identity that every slot never assigned carries;
  \<^verbatim>\<open>bget\<close> for an identity that a slot carries hands out that slot, its \<^verbatim>\<open>refcnt\<close>
  incremented, and changes no slot's identity.
\<close>

theorem identity_unique_assigned:
  assumes "reachable NBUCKETS NBUF s" and "ident s b = (dv, bno)" and "(dv, bno) \<noteq> (0, 0)"
  shows "(\<forall>c. ident s c = (dv, bno) \<longrightarrow> c = b) \<and>
         (\<exists>s'. (bget NBUCKETS NBUF p dv bno s = Returns s' b \<or>
                bget NBUCKETS NBUF p dv bno s = Waits s' (SlotLock b)) \<and>
               refcnt (buf_at s' b) = refcnt (buf_at s b) + 1 \<and>
               (\<forall>c. ident s' c = ident s c))"
proof -
  from assms(1) have inv: "cache_inv NBUCKETS NBUF s" by (rule reachable_cache_inv)
  have uniq: "c = b" if "ident s c = (dv, bno)" for c
    using inv that assms(2,3) by (intro unique_slot [of NBUCKETS NBUF s b c]) simp_all
  from inv assms(2,3) have hb: "home NBUCKETS s b" "snd b < NBUF"
    unfolding cache_inv_def assigned_home_def by metis+
  let ?i = "unat bno mod NBUCKETS"
  from hb(1) assms(2) have fb: "fst b = ?i" by (simp add: home_def ident_def)
  then have b: "b = (?i, snd b)" by (simp add: prod_eq_iff)
  from assms(2) have mb: "matches (bcache_buf s ?i (snd b)) dv bno"
    unfolding fb [symmetric] by (simp add: matches_def ident_def buf_at_def)
  have hit: "bget_scan (bcache_buf s ?i) dv bno NBUF 0 None = Hit (snd b)"
  proof (cases "bget_scan (bcache_buf s ?i) dv bno NBUF 0 None")
    case (Miss r)
    from bget_scan_Miss_nomatch [OF this] hb(2) mb show ?thesis by simp
  next
    case (Hit j)
    from bget_scan_Hit [OF this] have "matches (bcache_buf s ?i j) dv bno" by simp
    then have "ident s (?i, j) = (dv, bno)" by (simp add: matches_def ident_def)
    then have "(?i, j) = b" by (rule uniq)
    with Hit show ?thesis by auto
  qed
  from inv have free: "\<not> sl_locked (bcache_lock s ?i)"
    by (simp add: cache_inv_def locks_free_def)
  let ?r = "referenced ?i (snd b) s"
  have g: "bget NBUCKETS NBUF p dv bno s = lock_and_return p (?i, snd b) ?r"
    using free hit by (rule bget_Hit)
  have id_r: "ident ?r c = ident s c" for c
    by (cases c) (simp add: ident_def)
  have rc_r: "refcnt (buf_at ?r (?i, snd b)) = refcnt (buf_at s (?i, snd b)) + 1"
    by simp
  have "\<exists>s'. (bget NBUCKETS NBUF p dv bno s = Returns s' (?i, snd b) \<or>
           bget NBUCKETS NBUF p dv bno s = Waits s' (SlotLock (?i, snd b))) \<and>
          refcnt (buf_at s' (?i, snd b)) = refcnt (buf_at s (?i, snd b)) + 1 \<and>
          (\<forall>c. ident s' c = ident s c)"
  proof (cases "locked (lock (buf_at ?r (?i, snd b)))")
    case True
    then have "bget NBUCKETS NBUF p dv bno s = Waits ?r (SlotLock (?i, snd b))"
      unfolding g by (rule lock_and_return_held)
    with rc_r id_r show ?thesis by blast
  next
    case False
    then have e: "bget NBUCKETS NBUF p dv bno s = Returns (slept p (?i, snd b) ?r) (?i, snd b)"
      unfolding g by (rule lock_and_return_free)
    have "ident (slept p (?i, snd b) ?r) c = ident s c" for c
      by (cases c) (simp add: ident_def)
    moreover have "refcnt (buf_at (slept p (?i, snd b) ?r) (?i, snd b)) =
        refcnt (buf_at s (?i, snd b)) + 1"
      by simp
    ultimately show ?thesis using e by blast
  qed
  then have "\<exists>s'. (bget NBUCKETS NBUF p dv bno s = Returns s' b \<or>
           bget NBUCKETS NBUF p dv bno s = Waits s' (SlotLock b)) \<and>
          refcnt (buf_at s' b) = refcnt (buf_at s b) + 1 \<and> (\<forall>c. ident s' c = ident s c)"
    using b by simp
  with uniq show ?thesis by blast
qed

theorem identity_unique_assigned_witness:
  "ident read_state (0, 0) = (1, 3) \<and>
   (\<exists>s'. (bget 1 2 7 1 3 read_state = Returns s' (0, 0) \<or>
          bget 1 2 7 1 3 read_state = Waits s' (SlotLock (0, 0))) \<and>
         refcnt (buf_at s' (0, 0)) = 2)"
proof -
  have i: "ident read_state (0, 0) = (1, 3)"
    unfolding ident_def read_state_slot by simp
  have n: "(1 :: uint, 3 :: uint) \<noteq> (0, 0)" by simp
  have r: "refcnt (buf_at read_state (0, 0)) = 1"
    unfolding read_state_slot by simp
  from identity_unique_assigned [OF reachable_read_state i n, of 7] i show ?thesis
    unfolding r by auto
qed

subsection \<open>Releasing a slot\<close>

lemma held_home:
  assumes "cache_inv NBUCKETS NBUF s" and "holdingsleep p b s"
  shows "unat (blockno (buf_at s b)) mod NBUCKETS = fst b"
proof -
  from assms(2) have "locked (lock (buf_at s b))" by (simp add: holdingsleep_def)
  with assms(1) have "home NBUCKETS s b" unfolding cache_inv_def locked_home_def by blast
  then show ?thesis by (simp add: home_def)
qed

text \<open>
  Claim C7. In a reachable state, \<^verbatim>\<open>brelse\<close> on a slot whose lock the caller holds
  returns. It releases the slot's lock first, then takes the shard lock of the bucket
  that contains the slot and releases it again; the slot's \<^verbatim>\<open>refcnt\<close> is one less,
  its \<^verbatim>\<open>tstamp\<close> is the current \<^verbatim>\<open>ticks\<close>, its lock is free, and its other fields, all
  other slots, the shard locks, the disk and the clock are as before.
\<close>

theorem brelse_effect:
  assumes "reachable NBUCKETS NBUF s" and "holdingsleep p b s"
  shows "\<exists>s'. brelse NBUCKETS p b s = Returns s' () \<and>
           trace s' = trace s @ [EvReleaseSleep b, EvAcquire (fst b), EvRelease (fst b)] \<and>
           buf_at s' b = (buf_at s b)\<lparr>lock := (lock (buf_at s b))\<lparr>locked := False, pid := 0\<rparr>,
                                    refcnt := refcnt (buf_at s b) - 1, tstamp := ticks s\<rparr> \<and>
           (\<forall>c. c \<noteq> b \<longrightarrow> buf_at s' c = buf_at s c) \<and>
           bcache_lock s' = bcache_lock s \<and> disk s' = disk s \<and> ticks s' = ticks s"
proof -
  from assms(1) have inv: "cache_inv NBUCKETS NBUF s" by (rule reachable_cache_inv)
  from held_home [OF inv assms(2)] have h: "unat (blockno (buf_at s b)) mod NBUCKETS = fst b" .
  from inv have "\<not> sl_locked (bcache_lock s (unat (blockno (buf_at s b)) mod NBUCKETS))"
    by (simp add: cache_inv_def locks_free_def)
  from brelse_free [OF assms(2) this]
  have "brelse NBUCKETS p b s = Returns (released (fst b) b s) ()" unfolding h .
  then show ?thesis by (intro exI [of _ "released (fst b) b s"]) simp
qed

theorem brelse_effect_witness:
  "holdingsleep 5 (0, 0) read_state \<and> refcnt (buf_at read_state (0, 0)) = 1 \<and>
   (\<exists>s'. brelse 1 5 (0, 0) read_state = Returns s' () \<and>
      trace s' = trace read_state @ [EvReleaseSleep (0, 0), EvAcquire 0, EvRelease 0] \<and>
      refcnt (buf_at s' (0, 0)) = 0 \<and> tstamp (buf_at s' (0, 0)) = ticks read_state \<and>
      \<not> locked (lock (buf_at s' (0, 0))) \<and>
      dev (buf_at s' (0, 0)) = 1 \<and> blockno (buf_at s' (0, 0)) = 3 \<and> valid (buf_at s' (0, 0)) \<and>
      buf_at s' (0, 1) = buf_at read_state (0, 1))"
proof -
  have h: "holdingsleep 5 (0, 0) read_state"
    unfolding holdingsleep_def read_state_slot by simp
  have r: "refcnt (buf_at read_state (0, 0)) = 1"
    unfolding read_state_slot by simp
  have e: "\<exists>s'. brelse 1 5 (0, 0) read_state = Returns s' () \<and>
      trace s' = trace read_state @ [EvReleaseSleep (0, 0), EvAcquire 0, EvRelease 0] \<and>
      refcnt (buf_at s' (0, 0)) = 0 \<and> tstamp (buf_at s' (0, 0)) = ticks read_state \<and>
      \<not> locked (lock (buf_at s' (0, 0))) \<and>
      dev (buf_at s' (0, 0)) = 1 \<and> blockno (buf_at s' (0, 0)) = 3 \<and> valid (buf_at s' (0, 0)) \<and>
      buf_at s' (0, 1) = buf_at read_state (0, 1)"
    using brelse_effect [OF reachable_read_state h]
  proof (elim exE conjE)
    fix s'
    assume b: "brelse 1 5 (0, 0) read_state = Returns s' ()"
      and t: "trace s' = trace read_state @ [EvReleaseSleep (0, 0),
          EvAcquire (fst (0 :: nat, 0 :: nat)), EvRelease (fst (0 :: nat, 0 :: nat))]"
      and s: "buf_at s' (0, 0) = (buf_at read_state (0, 0))
          \<lparr>lock := (lock (buf_at read_state (0, 0)))\<lparr>locked := False, pid := 0\<rparr>,
           refcnt := refcnt (buf_at read_state (0, 0)) - 1, tstamp := ticks read_state\<rparr>"
      and o: "\<forall>c. c \<noteq> (0, 0) \<longrightarrow> buf_at s' c = buf_at read_state c"
    have ne: "(0 :: nat, 1 :: nat) \<noteq> (0, 0)" by simp
    from o have "(0, 1) \<noteq> (0 :: nat, 0 :: nat) \<longrightarrow> buf_at s' (0, 1) = buf_at read_state (0, 1)"
      by (rule spec)
    from this ne have o1: "buf_at s' (0, 1) = buf_at read_state (0, 1)" by (rule mp)
    have f: "refcnt (buf_at s' (0, 0)) = 0" "tstamp (buf_at s' (0, 0)) = ticks read_state"
      "\<not> locked (lock (buf_at s' (0, 0)))" "dev (buf_at s' (0, 0)) = 1"
      "blockno (buf_at s' (0, 0)) = 3" "valid (buf_at s' (0, 0))"
      unfolding s read_state_slot by simp_all
    from t have t': "trace s' = trace read_state @ [EvReleaseSleep (0, 0), EvAcquire 0, EvRelease 0]"
      by simp
    from b t' f o1 show ?thesis by (intro exI [of _ s'] conjI)
  qed
  from h r e show ?thesis by (intro conjI)
qed

subsection \<open>The home bucket\<close>

lemma bpin_bunpin_home:
  assumes "locks_free s" and "home NBUCKETS s b"
  shows "(\<exists>s'. bpin NBUCKETS b s = Returns s' () \<and>
             trace s' = trace s @ [EvAcquire (fst b), EvRelease (fst b)]) \<and>
         (\<exists>s'. bunpin NBUCKETS b s = Returns s' () \<and>
             trace s' = trace s @ [EvAcquire (fst b), EvRelease (fst b)])"
proof -
  from assms(2) have h: "unat (blockno (buf_at s b)) mod NBUCKETS = fst b" by (simp add: home_def)
  from assms(1) have f: "\<not> sl_locked (bcache_lock s (unat (blockno (buf_at s b)) mod NBUCKETS))"
    by (simp add: locks_free_def)
  show ?thesis
    unfolding bpin_free [OF f] bunpin_free [OF f] h by (simp add: shard_trace_def)
qed

text \<open>
  Claim C9. The bucket is chosen from the block number alone. A slot that \<^verbatim>\<open>bget\<close>
  (and so \<^verbatim>\<open>bread\<close>) has returned lies in the bucket that its block number hashes to,
  and stays so whatever is called afterwards; \<^verbatim>\<open>bpin\<close>, \<^verbatim>\<open>bunpin\<close> and \<^verbatim>\<open>brelse\<close> on
  it therefore take the lock of the bucket that contains it.
\<close>

theorem returned_slot_home:
  assumes "reachable NBUCKETS NBUF s" and "bread NBUCKETS NBUF p dv bno s = Returns s1 b"
    and "reaches NBUCKETS NBUF s1 s2"
  shows "(\<exists>s0. bget NBUCKETS NBUF p dv bno s = Returns s0 b) \<and>
         fst b = unat bno mod NBUCKETS \<and>
         unat (blockno (buf_at s2 b)) mod NBUCKETS = fst b \<and>
         (\<exists>s3. bpin NBUCKETS b s2 = Returns s3 () \<and>
             trace s3 = trace s2 @ [EvAcquire (fst b), EvRelease (fst b)]) \<and>
         (\<exists>s3. bunpin NBUCKETS b s2 = Returns s3 () \<and>
             trace s3 = trace s2 @ [EvAcquire (fst b), EvRelease (fst b)]) \<and>
         (\<forall>q. holdingsleep q b s2 \<longrightarrow>
            (\<exists>s3. brelse NBUCKETS q b s2 = Returns s3 () \<and>
               trace s3 = trace s2 @ [EvReleaseSleep b, EvAcquire (fst b), EvRelease (fst b)]))"
proof -
  from bread_Returns [OF assms(2)] obtain s0 where
    g: "bget NBUCKETS NBUF p dv bno s = Returns s0 b" and
    s1: "s1 = (if valid (buf_at s0 b) then s0 else filled b s0)"
    by blast
  from bget_Returns [OF g] have fb: "fst b = unat bno mod NBUCKETS"
    and bn: "blockno (buf_at s0 b) = bno" by simp_all
  from s1 bn have "blockno (buf_at s1 b) = bno" by (simp split: if_splits)
  with fb have h1: "home NBUCKETS s1 b" by (simp add: home_def)
  from assms(1) reaches_bread [OF assms(2)] have r1: "reachable NBUCKETS NBUF s1"
    by (rule reachable_reaches)
  then have i1: "cache_inv NBUCKETS NBUF s1" by (rule reachable_cache_inv)
  from assms(3) i1 h1 have h2: "home NBUCKETS s2 b" by (rule reaches_home)
  from assms(3) i1 have i2: "cache_inv NBUCKETS NBUF s2" by (rule reaches_cache_inv)
  then have l2: "locks_free s2" by (simp add: cache_inv_def)
  from h2 have e: "unat (blockno (buf_at s2 b)) mod NBUCKETS = fst b" by (simp add: home_def)
  have rel: "\<exists>s3. brelse NBUCKETS q b s2 = Returns s3 () \<and>
               trace s3 = trace s2 @ [EvReleaseSleep b, EvAcquire (fst b), EvRelease (fst b)]"
    if hq: "holdingsleep q b s2" for q
  proof -
    from l2 have "\<not> sl_locked (bcache_lock s2 (unat (blockno (buf_at s2 b)) mod NBUCKETS))"
      by (simp add: locks_free_def)
    from brelse_free [OF hq this] show ?thesis unfolding e by simp
  qed
  from g fb e bpin_bunpin_home [OF l2 h2] rel show ?thesis by blast
qed

theorem returned_slot_home_witness:
  "\<exists>s2 s3. bread 1 2 5 1 3 boot_state = Returns read_state (0, 0) \<and>
      step 1 2 (Bpin (0, 0)) read_state = Some s2 \<and>
      unat (blockno (buf_at s2 (0, 0))) mod 1 = 0 \<and>
      bunpin 1 (0, 0) s2 = Returns s3 () \<and>
      trace s3 = trace s2 @ [EvAcquire 0, EvRelease 0]"
proof -
  have "locks_free read_state"
    using reachable_cache_inv [OF reachable_read_state] by (simp add: cache_inv_def)
  then have "\<not> sl_locked (bcache_lock read_state (unat (blockno (buf_at read_state (0, 0))) mod 1))"
    by (simp add: locks_free_def)
  from bpin_free [OF this] obtain s2 where st: "step 1 2 (Bpin (0, 0)) read_state = Some s2"
    by simp
  have "reaches 1 2 read_state s2"
  proof (rule reaches_step [where x = "Bpin (0, 0)"])
    show "enabled 1 (Bpin (0, 0)) read_state" by simp
    show "step 1 2 (Bpin (0, 0)) read_state = Some s2" by (rule st)
  qed
  from returned_slot_home [OF reachable_boot_state boot_state_bread this] obtain s3 where
    "unat (blockno (buf_at s2 (0, 0))) mod 1 = fst (0 :: nat, 0 :: nat)"
    "bunpin 1 (0, 0) s2 = Returns s3 ()"
    "trace s3 = trace s2 @ [EvAcquire (fst (0 :: nat, 0 :: nat)), EvRelease (fst (0 :: nat, 0 :: nat))]"
    by blast
  with st boot_state_bread show ?thesis by (intro exI [of _ s2] exI [of _ s3]) simp
qed

end
